theory Spec2Isabelle
  imports Main
begin

section \<open>Characters and character classes\<close>

text \<open>
  The source works on Python \<open>str\<close> values, whose elements are Unicode code points, and
  its patterns are Unicode-aware.  A \<^typ>\<open>char\<close> stands here for one code point below
  256, so a \<^typ>\<open>string\<close> is a Python string over that range.  The three classes are
  those of Python's \<open>re\<close> module restricted to it: \<open>\d\<close> is the decimal digits,
  \<open>\w\<close> is the alphanumerics of \<open>str.isalnum\<close> plus the underscore, \<open>\s\<close> is the
  white space of \<open>str.isspace\<close>.  Integers are unbounded, and the depth of recursion
  that the interpreter allows is outside the model.
\<close>

definition code_point :: "char \<Rightarrow> nat" where
  "code_point c = of_char c"

definition in_ranges :: "(nat \<times> nat) list \<Rightarrow> char \<Rightarrow> bool" where
  "in_ranges rs c = (\<exists>(lo, hi) \<in> set rs. lo \<le> code_point c \<and> code_point c \<le> hi)"

definition is_digit :: "char \<Rightarrow> bool" where
  "is_digit c = in_ranges [(48, 57)] c"

definition is_word :: "char \<Rightarrow> bool" where
  "is_word c = in_ranges [(48, 57), (65, 90), (95, 95), (97, 122), (170, 170), (178, 179),
     (181, 181), (185, 186), (188, 190), (192, 214), (216, 246), (248, 255)] c"

definition is_space :: "char \<Rightarrow> bool" where
  "is_space c = in_ranges [(9, 13), (28, 32), (133, 133), (160, 160)] c"

definition is_ident_start :: "char \<Rightarrow> bool" where
  "is_ident_start c = in_ranges [(97, 122), (65, 90), (95, 95)] c"

section \<open>Tokens and the lexer\<close>

datatype token_kind =
  IF | ELSE | NUMBER | PLUS | MINUS | MULTIPLY | DIVIDE | LPAREN | RPAREN | LBRACE | RBRACE
  | SEMICOLON | EQ | NEQ | LT | GT | LE | GE | ASSIGN | IDENTIFIER | WHITESPACE

type_synonym token = "token_kind \<times> string"

text \<open>
  The shapes of regular expression that occur in \<open>TOKENS\<close>: a word between two \<open>\b\<close>
  assertions, a literal text, \<open>\d+\<close>, \<open>[a-zA-Z_]\w*\<close> and \<open>\s+\<close>.  The repetitions are
  greedy and nothing follows them, so each pattern has at most one match at a position.
\<close>

datatype pattern = Keyword string | Literal string | Digits | Ident | Spaces

definition TOKENS :: "(token_kind \<times> pattern) list" where
  "TOKENS =
    [(IF, Keyword ''if''),
     (ELSE, Keyword ''else''),
     (NUMBER, Digits),
     (PLUS, Literal ''+''),
     (MINUS, Literal ''-''),
     (MULTIPLY, Literal ''*''),
     (DIVIDE, Literal ''/''),
     (LPAREN, Literal ''(''),
     (RPAREN, Literal '')''),
     (LBRACE, Literal ''{''),
     (RBRACE, Literal ''}''),
     (SEMICOLON, Literal '';''),
     (EQ, Literal ''==''),
     (NEQ, Literal ''!=''),
     (LT, Literal ''<''),
     (GT, Literal ''>''),
     (LE, Literal ''<=''),
     (GE, Literal ''>=''),
     (ASSIGN, Literal ''=''),
     (IDENTIFIER, Ident),
     (WHITESPACE, Spaces)]"

text \<open>
  \<open>\b\<close> holds between two positions exactly one of which is a word character; the
  start and the end of the text count as non-word.
\<close>

definition word_side :: "char option \<Rightarrow> bool" where
  "word_side x = (case x of None \<Rightarrow> False | Some c \<Rightarrow> is_word c)"

definition at_boundary :: "char option \<Rightarrow> char option \<Rightarrow> bool" where
  "at_boundary before after = (word_side before \<noteq> word_side after)"

definition first_char :: "string \<Rightarrow> char option" where
  "first_char s = (case s of [] \<Rightarrow> None | c # _ \<Rightarrow> Some c)"

definition char_before_end :: "char option \<Rightarrow> string \<Rightarrow> char option" where
  "char_before_end prev w = (if w = [] then prev else Some (last w))"

text \<open>
  \<open>match_pattern p prev s\<close> is the length of the match of \<open>p\<close> that starts at the head of
  \<open>s\<close>, where \<open>prev\<close> is the character just before that position (if any).
\<close>

fun match_pattern :: "pattern \<Rightarrow> char option \<Rightarrow> string \<Rightarrow> nat option" where
  "match_pattern (Keyword w) prev s =
     (if at_boundary prev (first_char s) \<and> take (length w) s = w
         \<and> at_boundary (char_before_end prev w) (first_char (drop (length w) s))
      then Some (length w) else None)"
| "match_pattern (Literal w) prev s =
     (if take (length w) s = w then Some (length w) else None)"
| "match_pattern Digits prev s =
     (let n = length (takeWhile is_digit s) in if 0 < n then Some n else None)"
| "match_pattern Ident prev s =
     (case s of [] \<Rightarrow> None
      | c # cs \<Rightarrow> if is_ident_start c then Some (Suc (length (takeWhile is_word cs))) else None)"
| "match_pattern Spaces prev s =
     (let n = length (takeWhile is_space s) in if 0 < n then Some n else None)"

text \<open>The alternation: the first alternative, in the order of the list, that matches.\<close>

fun first_match :: "(token_kind \<times> pattern) list \<Rightarrow> char option \<Rightarrow> string
    \<Rightarrow> (token_kind \<times> nat) option" where
  "first_match [] prev s = None"
| "first_match ((name, p) # alts) prev s =
     (case match_pattern p prev s of
        Some n \<Rightarrow> Some (name, n)
      | None \<Rightarrow> first_match alts prev s)"

definition match_here :: "char option \<Rightarrow> string \<Rightarrow> (token_kind \<times> nat) option" where
  "match_here prev s = first_match TOKENS prev s"

lemma take_eq_length_le:
  assumes "take (length w) s = w"
  shows "length w \<le> length s"
proof -
  have "length (take (length w) s) = min (length w) (length s)" by simp
  with assms show ?thesis by simp
qed

lemma match_pattern_bounds:
  assumes "match_pattern p prev s = Some n" and "\<forall>w. p = Keyword w \<or> p = Literal w \<longrightarrow> w \<noteq> []"
  shows "0 < n \<and> n \<le> length s"
proof (cases p)
  case (Keyword v)
  with assms have "take (length v) s = v" "n = length v" "v \<noteq> []"
    by (auto split: if_splits)
  then show ?thesis
    using take_eq_length_le [of v s] by simp
next
  case (Literal v)
  with assms have "take (length v) s = v" "n = length v" "v \<noteq> []"
    by (auto split: if_splits)
  then show ?thesis
    using take_eq_length_le [of v s] by simp
next
  case Digits
  with assms show ?thesis
    by (auto simp: Let_def length_takeWhile_le split: if_splits)
next
  case Ident
  with assms show ?thesis
    by (auto simp: length_takeWhile_le split: list.splits if_splits)
next
  case Spaces
  with assms show ?thesis
    by (auto simp: Let_def length_takeWhile_le split: if_splits)
qed

lemma first_match_bounds:
  assumes "first_match alts prev s = Some (name, n)"
    and "\<forall>(k, p) \<in> set alts. \<forall>w. p = Keyword w \<or> p = Literal w \<longrightarrow> w \<noteq> []"
  shows "0 < n \<and> n \<le> length s"
  using assms
proof (induction alts)
  case Nil
  then show ?case by simp
next
  case (Cons a alts)
  obtain k p where a: "a = (k, p)" by (cases a)
  show ?case
  proof (cases "match_pattern p prev s")
    case None
    with Cons a show ?thesis by simp
  next
    case (Some m)
    with Cons.prems a have "m = n" by simp
    moreover from Cons.prems(2) a have "\<forall>w. p = Keyword w \<or> p = Literal w \<longrightarrow> w \<noteq> []"
      by simp
    ultimately show ?thesis
      using Some match_pattern_bounds by blast
  qed
qed

lemma TOKENS_nonempty:
  "\<forall>(k, p) \<in> set TOKENS. \<forall>w. p = Keyword w \<or> p = Literal w \<longrightarrow> w \<noteq> []"
  unfolding TOKENS_def by (intro ballI) auto

lemma match_here_bounds:
  assumes "match_here prev s = Some (name, n)"
  shows "0 < n \<and> n \<le> length s"
  using assms TOKENS_nonempty unfolding match_here_def
  by (rule first_match_bounds)

text \<open>
  \<open>lex\<close> iterates over \<open>re.finditer\<close>: the scan looks for a match at the current
  position; where there is none it moves one character on, and after a match it goes on
  from the end of the match.  Every match names its alternative (\<open>lastgroup\<close>) and its
  text; white space is matched and dropped.  \<open>lex_from prev s\<close> is the scan of the rest
  \<open>s\<close> of the text behind the character \<open>prev\<close>, and \<open>lex_tokens\<close> is \<open>lex\<close> itself.
\<close>

function lex_from :: "char option \<Rightarrow> string \<Rightarrow> token list" where
  "lex_from prev [] = []"
| "lex_from prev (c # cs) =
     (case match_here prev (c # cs) of
        None \<Rightarrow> lex_from (Some c) cs
      | Some (token_name, n) \<Rightarrow>
          (let token_value = take n (c # cs) in
           (if token_name \<noteq> WHITESPACE then [(token_name, token_value)] else [])
           @ lex_from (Some (last token_value)) (drop n (c # cs))))"
  by pat_completeness auto
termination
proof (relation "measure (\<lambda>(prev, s). length s)")
  show "wf (measure (\<lambda>(prev, s). length s))" by simp
next
  fix prev :: "char option" and c :: char and cs :: string
  show "((Some c, cs), prev, c # cs) \<in> measure (\<lambda>(prev, s). length s)" by simp
next
  fix prev :: "char option" and c :: char and cs :: string and x2 x y token_value
  assume "match_here prev (c # cs) = Some x2" and "(x, y) = x2"
  then have "match_here prev (c # cs) = Some (x, y)" by simp
  then have "0 < y" by (rule match_here_bounds [THEN conjunct1])
  then show "((Some (last token_value), drop y (c # cs)), prev, c # cs)
      \<in> measure (\<lambda>(prev, s). length s)" by simp
qed

definition lex_tokens :: "string \<Rightarrow> token list" where
  "lex_tokens code = lex_from None code"

section \<open>The syntax tree\<close>

text \<open>
  The node classes.  As in the source, the fields of a node hold any node: nothing in a
  constructor checks that the first field of an \<open>Assignment\<close> is an \<open>Identifier\<close>.
  The absent \<open>else_branch\<close> (\<open>None\<close>) is the \<open>None\<close> of the option type.
\<close>

datatype node =
    Number int
  | Identifier string
  | BinOp node string node
  | Assignment node node
  | IfStatement node node "node option"
  | Block "node list"

section \<open>Errors and conversions\<close>

text \<open>The exceptions that the parser and the generator can raise, with their messages.\<close>

datatype error = SyntaxError string | TypeError string | AttributeError string | ValueError string

definition quoted :: "string \<Rightarrow> string" where
  "quoted s = [CHR 0x27] @ s @ [CHR 0x27]"

fun kind_name :: "token_kind \<Rightarrow> string" where
  "kind_name IF = ''IF''"
| "kind_name ELSE = ''ELSE''"
| "kind_name NUMBER = ''NUMBER''"
| "kind_name PLUS = ''PLUS''"
| "kind_name MINUS = ''MINUS''"
| "kind_name MULTIPLY = ''MULTIPLY''"
| "kind_name DIVIDE = ''DIVIDE''"
| "kind_name LPAREN = ''LPAREN''"
| "kind_name RPAREN = ''RPAREN''"
| "kind_name LBRACE = ''LBRACE''"
| "kind_name RBRACE = ''RBRACE''"
| "kind_name SEMICOLON = ''SEMICOLON''"
| "kind_name EQ = ''EQ''"
| "kind_name NEQ = ''NEQ''"
| "kind_name LT = ''LT''"
| "kind_name GT = ''GT''"
| "kind_name LE = ''LE''"
| "kind_name GE = ''GE''"
| "kind_name ASSIGN = ''ASSIGN''"
| "kind_name IDENTIFIER = ''IDENTIFIER''"
| "kind_name WHITESPACE = ''WHITESPACE''"

text \<open>The decimal digits of a natural number, as \<open>str\<close> writes them.\<close>

definition digit_char :: "nat \<Rightarrow> char" where
  "digit_char d = char_of (48 + d)"

fun digits_of :: "nat \<Rightarrow> string" where
  "digits_of n = (if n < 10 then [digit_char n] else digits_of (n div 10) @ [digit_char (n mod 10)])"

declare digits_of.simps [simp del]

text \<open>
  The interpreter refuses to convert between \<open>int\<close> and \<open>str\<close> when more than
  \<open>sys.get_int_max_str_digits()\<close> decimal digits are involved; the source leaves the limit
  at its default of 4300.  \<open>int\<close> counts the digits of the text, leading zeros included,
  and names their number in its message; \<open>str\<close> counts the digits of the value.
\<close>

definition int_max_str_digits :: nat where
  "int_max_str_digits = 4300"

definition int_limit_error :: "nat \<Rightarrow> error" where
  "int_limit_error n =
     ValueError (''Exceeds the limit ('' @ digits_of int_max_str_digits
       @ '' digits) for integer string conversion: value has '' @ digits_of n
       @ '' digits; use sys.set_int_max_str_digits() to increase the limit'')"

definition str_limit_error :: error where
  "str_limit_error =
     ValueError (''Exceeds the limit ('' @ digits_of int_max_str_digits
       @ '' digits) for integer string conversion; use sys.set_int_max_str_digits() ''
       @ ''to increase the limit'')"

text \<open>
  \<open>int(text)\<close> on the text of a \<open>NUMBER\<close> token.  The lexer only gives such a token a
  non-empty run of decimal digits, and on those the conversion is the positional value,
  or the error of the limit.  On any other text the model raises \<open>ValueError\<close>; Python's
  \<open>int\<close> accepts a few more forms (a sign, surrounding blanks, underscores between
  digits), none of which the pattern \<open>\d+\<close> can produce.
\<close>

definition digit_value :: "char \<Rightarrow> int" where
  "digit_value c = int (code_point c) - 48"

definition py_int :: "string \<Rightarrow> error + int" where
  "py_int s =
     (if s \<noteq> [] \<and> list_all is_digit s
      then
        if int_max_str_digits < length s then Inl (int_limit_error (length s))
        else Inr (foldl (\<lambda>acc c. 10 * acc + digit_value c) 0 s)
      else Inl (ValueError (''invalid literal for int() with base 10: '' @ quoted s)))"

text \<open>
  \<open>str(value)\<close> of an integer: its decimal digits, after a minus sign when negative, or
  the error of the limit.
\<close>

definition py_str :: "int \<Rightarrow> error + string" where
  "py_str i =
     (let ds = digits_of (nat \<bar>i\<bar>) in
      if int_max_str_digits < length ds then Inl str_limit_error
      else Inr (if i < 0 then CHR ''-'' # ds else ds))"

section \<open>The parser\<close>

text \<open>
  The state of a \<open>Parser\<close> object: the tokens not yet taken from the list, and the
  current token (\<open>None\<close> once the list is used up).  Every method takes the state and
  returns the new one beside its result, or the exception it raises.
\<close>

record parser =
  tokens :: "token list"
  current_token :: "token option"

definition next_token :: "parser \<Rightarrow> parser" where
  "next_token p =
     (case tokens p of
        [] \<Rightarrow> p\<lparr>current_token := None\<rparr>
      | t # ts \<Rightarrow> p\<lparr>tokens := ts, current_token := Some t\<rparr>)"

definition Parser :: "token list \<Rightarrow> parser" where
  "Parser toks = next_token \<lparr>tokens = toks, current_token = None\<rparr>"

text \<open>The message of a failed \<open>expect\<close>: the kind asked for and the text found.\<close>

definition expected_error :: "token_kind \<Rightarrow> string \<Rightarrow> error" where
  "expected_error token_type found =
     SyntaxError (''Esperado '' @ quoted (kind_name token_type) @ '' mas encontrado ''
       @ quoted found)"

definition expect :: "token_kind \<Rightarrow> parser \<Rightarrow> error + parser" where
  "expect token_type p =
     (case current_token p of
        Some (kind, text) \<Rightarrow>
          if kind = token_type then Inr (next_token p)
          else Inl (expected_error token_type text)
      | None \<Rightarrow> Inl (expected_error token_type ''EOF''))"

definition lookahead :: "token_kind \<Rightarrow> parser \<Rightarrow> bool" where
  "lookahead token_type p = (case tokens p of [] \<Rightarrow> False | (kind, text) # _ \<Rightarrow> kind = token_type)"

definition unexpected_end :: error where
  "unexpected_end = SyntaxError ''Erro de sintaxe: token inesperado no final da entrada''"

definition unexpected_token :: "string \<Rightarrow> error" where
  "unexpected_token text = SyntaxError (''Erro de sintaxe: token inesperado '' @ quoted text)"

definition none_subscript :: error where
  "none_subscript = TypeError (quoted ''NoneType'' @ '' object is not subscriptable'')"

text \<open>The tokens still ahead of the parser, the current one included.\<close>

definition remaining :: "parser \<Rightarrow> token list" where
  "remaining p = (case current_token p of None \<Rightarrow> [] | Some t \<Rightarrow> t # tokens p)"

lemma remaining_next_token: "remaining (next_token p) = tokens p"
  by (simp add: remaining_def next_token_def split: list.splits)

lemma remaining_current:
  "current_token p = Some t \<Longrightarrow> remaining p = t # remaining (next_token p)"
  by (simp add: remaining_next_token) (simp add: remaining_def)

lemma remaining_none: "current_token p = None \<Longrightarrow> remaining p = []"
  by (simp add: remaining_def)

lemma expect_remaining:
  "expect k p = Inr q \<Longrightarrow> \<exists>text. remaining p = (k, text) # remaining q"
  by (auto simp: expect_def remaining_current split: option.splits if_splits)

text \<open>
  The expression methods.  Each \<open>while\<close> loop is a function of the result so far:
  \<open>term_loop\<close> is the loop of \<open>term'\<close>, \<open>expr_loop\<close> the loop of \<open>expr\<close>.  The method
  \<open>term\<close> of the source is \<open>term'\<close> here, its own name being a keyword of Isabelle.
\<close>

function factor :: "parser \<Rightarrow> error + (node \<times> parser)"
  and term' :: "parser \<Rightarrow> error + (node \<times> parser)"
  and term_loop :: "node \<Rightarrow> parser \<Rightarrow> error + (node \<times> parser)"
  and expr :: "parser \<Rightarrow> error + (node \<times> parser)"
  and expr_loop :: "node \<Rightarrow> parser \<Rightarrow> error + (node \<times> parser)"
where
  "factor p =
     (case current_token p of
        None \<Rightarrow> Inl unexpected_end
      | Some (kind, text) \<Rightarrow>
          if kind = NUMBER then
            (case py_int text of
               Inl e \<Rightarrow> Inl e
             | Inr v \<Rightarrow> Inr (Number v, next_token p))
          else if kind = IDENTIFIER then Inr (Identifier text, next_token p)
          else if kind = LPAREN then
            (case expr (next_token p) of
               Inl e \<Rightarrow> Inl e
             | Inr (result, p1) \<Rightarrow>
                 (case expect RPAREN p1 of
                    Inl e \<Rightarrow> Inl e
                  | Inr p2 \<Rightarrow> Inr (result, p2)))
          else Inl (unexpected_token text))"
| "term' p =
     (case factor p of
        Inl e \<Rightarrow> Inl e
      | Inr (result, p1) \<Rightarrow> term_loop result p1)"
| "term_loop result p =
     (case current_token p of
        None \<Rightarrow> Inr (result, p)
      | Some (kind, op) \<Rightarrow>
          if kind \<in> {MULTIPLY, DIVIDE} then
            (case factor (next_token p) of
               Inl e \<Rightarrow> Inl e
             | Inr (right, p1) \<Rightarrow> term_loop (BinOp result op right) p1)
          else Inr (result, p))"
| "expr p =
     (case term' p of
        Inl e \<Rightarrow> Inl e
      | Inr (result, p1) \<Rightarrow> expr_loop result p1)"
| "expr_loop result p =
     (case current_token p of
        None \<Rightarrow> Inr (result, p)
      | Some (kind, op) \<Rightarrow>
          if kind \<in> {PLUS, MINUS, EQ, NEQ, LT, GT, LE, GE} then
            (case term' (next_token p) of
               Inl e \<Rightarrow> Inl e
             | Inr (right, p1) \<Rightarrow> expr_loop (BinOp result op right) p1)
          else Inr (result, p))"
  by pat_completeness auto

lemma expr_partial_decrease:
  "factor_term'_term_loop_expr_expr_loop_dom (Inl (Inl p)) \<Longrightarrow>
     factor p = Inr (r, q) \<Longrightarrow> length (remaining q) < length (remaining p)"
  "factor_term'_term_loop_expr_expr_loop_dom (Inl (Inr p)) \<Longrightarrow>
     term' p = Inr (r, q) \<Longrightarrow> length (remaining q) < length (remaining p)"
  "factor_term'_term_loop_expr_expr_loop_dom (Inr (Inl (res, p))) \<Longrightarrow>
     term_loop res p = Inr (r, q) \<Longrightarrow> length (remaining q) \<le> length (remaining p)"
  "factor_term'_term_loop_expr_expr_loop_dom (Inr (Inr (Inl p))) \<Longrightarrow>
     expr p = Inr (r, q) \<Longrightarrow> length (remaining q) < length (remaining p)"
  "factor_term'_term_loop_expr_expr_loop_dom (Inr (Inr (Inr (res, p)))) \<Longrightarrow>
     expr_loop res p = Inr (r, q) \<Longrightarrow> length (remaining q) \<le> length (remaining p)"
proof (induct p and p and res p and p and res p arbitrary: r q and r q and r q and r q and r q
    rule: factor_term'_term_loop_expr_expr_loop.pinduct)
  case (1 p)
  from "1.prems" "1.hyps"(1) show ?case
    apply (simp add: factor.psimps split: option.splits prod.splits if_splits sum.splits)
    apply (auto simp: remaining_current dest!: expect_remaining "1.hyps"(2))
    done
next
  case (2 p)
  from "2.prems" "2.hyps"(1) obtain r1 p1 where f: "factor p = Inr (r1, p1)"
    and l: "term_loop r1 p1 = Inr (r, q)"
    by (auto simp: term'.psimps split: sum.splits)
  from "2.hyps"(2) [OF f] "2.hyps"(3) [OF f refl l] show ?case by simp
next
  case (3 res p)
  show ?case
  proof (cases "current_token p")
    case None
    with "3.prems" "3.hyps"(1) show ?thesis by (simp add: term_loop.psimps)
  next
    case (Some t)
    obtain kind op where t: "t = (kind, op)" by (cases t)
    show ?thesis
    proof (cases "kind \<in> {MULTIPLY, DIVIDE}")
      case False
      with "3.prems" "3.hyps"(1) Some t show ?thesis by (simp add: term_loop.psimps)
    next
      case True
      with "3.prems" "3.hyps"(1) Some t obtain r1 p1
        where f: "factor (next_token p) = Inr (r1, p1)"
          and l: "term_loop (BinOp res op r1) p1 = Inr (r, q)"
        by (auto simp: term_loop.psimps split: sum.splits)
      from "3.hyps"(2) [OF Some t [symmetric] True f]
        "3.hyps"(3) [OF Some t [symmetric] True f refl l]
      show ?thesis using remaining_current [OF Some] by simp
    qed
  qed
next
  case (4 p)
  from "4.prems" "4.hyps"(1) obtain r1 p1 where f: "term' p = Inr (r1, p1)"
    and l: "expr_loop r1 p1 = Inr (r, q)"
    by (auto simp: expr.psimps split: sum.splits)
  from "4.hyps"(2) [OF f] "4.hyps"(3) [OF f refl l] show ?case by simp
next
  case (5 res p)
  show ?case
  proof (cases "current_token p")
    case None
    with "5.prems" "5.hyps"(1) show ?thesis by (simp add: expr_loop.psimps)
  next
    case (Some t)
    obtain kind op where t: "t = (kind, op)" by (cases t)
    show ?thesis
    proof (cases "kind \<in> {PLUS, MINUS, EQ, NEQ, LT, GT, LE, GE}")
      case False
      with "5.prems" "5.hyps"(1) Some t show ?thesis by (simp add: expr_loop.psimps)
    next
      case True
      with "5.prems" "5.hyps"(1) Some t obtain r1 p1
        where f: "term' (next_token p) = Inr (r1, p1)"
          and l: "expr_loop (BinOp res op r1) p1 = Inr (r, q)"
        by (auto simp: expr_loop.psimps split: sum.splits)
      from "5.hyps"(2) [OF Some t [symmetric] True f]
        "5.hyps"(3) [OF Some t [symmetric] True f refl l]
      show ?thesis using remaining_current [OF Some] by simp
    qed
  qed
qed

termination factor
proof (relation "measure (\<lambda>x. case x of
      Inl (Inl p) \<Rightarrow> 3 * length (remaining p)
    | Inl (Inr p) \<Rightarrow> 3 * length (remaining p) + 1
    | Inr (Inl (res, p)) \<Rightarrow> 3 * length (remaining p)
    | Inr (Inr (Inl p)) \<Rightarrow> 3 * length (remaining p) + 2
    | Inr (Inr (Inr (res, p))) \<Rightarrow> 3 * length (remaining p))", goal_cases)
  case 1
  show ?case by simp
next
  case (2 p x2 x y)
  then show ?case by (simp add: remaining_current)
next
  case (3 p)
  show ?case by simp
next
  case (4 p b x y)
  then show ?case using expr_partial_decrease(1) [of p x y] by auto
next
  case (5 res p x2 x y)
  then show ?case by (simp add: remaining_current)
next
  case (6 res p x2 x y b xa ya)
  then show ?case
    using expr_partial_decrease(1) [of "next_token p" xa ya] by (auto simp: remaining_current)
next
  case (7 p)
  show ?case by simp
next
  case (8 p b x y)
  then show ?case using expr_partial_decrease(2) [of p x y] by auto
next
  case (9 res p x2 x y)
  then show ?case by (simp add: remaining_current)
next
  case (10 res p x2 x y b xa ya)
  then show ?case
    using expr_partial_decrease(2) [of "next_token p" xa ya] by (auto simp: remaining_current)
qed

declare factor.simps [simp del] term'.simps [simp del] term_loop.simps [simp del]
  expr.simps [simp del] expr_loop.simps [simp del]

lemma expr_consumes:
  "factor p = Inr (r, q) \<Longrightarrow> \<exists>ts. ts \<noteq> [] \<and> remaining p = ts @ remaining q"
  "term' p = Inr (r, q) \<Longrightarrow> \<exists>ts. ts \<noteq> [] \<and> remaining p = ts @ remaining q"
  "term_loop res p = Inr (r, q) \<Longrightarrow> \<exists>ts. remaining p = ts @ remaining q"
  "expr p = Inr (r, q) \<Longrightarrow> \<exists>ts. ts \<noteq> [] \<and> remaining p = ts @ remaining q"
  "expr_loop res p = Inr (r, q) \<Longrightarrow> \<exists>ts. remaining p = ts @ remaining q"
proof (induct p and p and res p and p and res p arbitrary: r q and r q and r q and r q and r q
    rule: factor_term'_term_loop_expr_expr_loop.induct)
  case (1 p)
  show ?case
  proof (cases "current_token p")
    case None
    with "1.prems" show ?thesis by (simp add: factor.simps [of p])
  next
    case (Some t)
    obtain kind lexeme where t: "t = (kind, lexeme)" by (cases t)
    note rem = remaining_current [OF Some]
    consider "kind = NUMBER" | "kind = IDENTIFIER" | "kind = LPAREN"
      | "kind \<noteq> NUMBER" "kind \<noteq> IDENTIFIER" "kind \<noteq> LPAREN" by blast
    then show ?thesis
    proof cases
      case 1
      with "1.prems" Some t have "q = next_token p"
        by (auto simp: factor.simps [of p] split: sum.splits)
      with rem show ?thesis by simp
    next
      case 2
      with "1.prems" Some t have "q = next_token p"
        by (auto simp: factor.simps [of p])
      with rem show ?thesis by simp
    next
      case 3
      with "1.prems" Some t obtain p1 where e: "expr (next_token p) = Inr (r, p1)"
        and x: "expect RPAREN p1 = Inr q"
        by (auto simp: factor.simps [of p] split: sum.splits)
      from 3 have k: "kind \<noteq> NUMBER" "kind \<noteq> IDENTIFIER" "kind = LPAREN" by simp_all
      from "1.hyps" [OF Some t [symmetric] k e] obtain ts
        where "remaining (next_token p) = ts @ remaining p1" by blast
      moreover from expect_remaining [OF x] obtain text' where
        "remaining p1 = (RPAREN, text') # remaining q" by blast
      ultimately have "remaining p = (t # ts @ [(RPAREN, text')]) @ remaining q"
        using rem by simp
      then show ?thesis by blast
    next
      case 4
      with "1.prems" Some t show ?thesis by (simp add: factor.simps [of p])
    qed
  qed
next
  case (2 p)
  from "2.prems" obtain r1 p1 where f: "factor p = Inr (r1, p1)"
    and l: "term_loop r1 p1 = Inr (r, q)"
    by (auto simp: term'.simps [of p] split: sum.splits)
  from "2.hyps"(1) [OF f] obtain ts where ts: "ts \<noteq> []" "remaining p = ts @ remaining p1"
    by blast
  from "2.hyps"(2) [OF f refl l] obtain us where "remaining p1 = us @ remaining q" by blast
  with ts have "ts @ us \<noteq> [] \<and> remaining p = (ts @ us) @ remaining q" by simp
  then show ?case by blast
next
  case (3 res p)
  show ?case
  proof (cases "current_token p")
    case None
    with "3.prems" show ?thesis by (simp add: term_loop.simps [of res p])
  next
    case (Some t)
    obtain kind op where t: "t = (kind, op)" by (cases t)
    show ?thesis
    proof (cases "kind \<in> {MULTIPLY, DIVIDE}")
      case False
      with "3.prems" Some t show ?thesis by (simp add: term_loop.simps [of res p])
    next
      case True
      with "3.prems" Some t obtain r1 p1
        where f: "factor (next_token p) = Inr (r1, p1)"
          and l: "term_loop (BinOp res op r1) p1 = Inr (r, q)"
        by (auto simp: term_loop.simps [of res p] split: sum.splits)
      from "3.hyps"(1) [OF Some t [symmetric] True f] obtain ts
        where "remaining (next_token p) = ts @ remaining p1" by blast
      moreover from "3.hyps"(2) [OF Some t [symmetric] True f refl l] obtain us
        where "remaining p1 = us @ remaining q" by blast
      ultimately have "remaining p = (t # ts @ us) @ remaining q"
        using remaining_current [OF Some] by simp
      then show ?thesis by blast
    qed
  qed
next
  case (4 p)
  from "4.prems" obtain r1 p1 where f: "term' p = Inr (r1, p1)"
    and l: "expr_loop r1 p1 = Inr (r, q)"
    by (auto simp: expr.simps [of p] split: sum.splits)
  from "4.hyps"(1) [OF f] obtain ts where ts: "ts \<noteq> []" "remaining p = ts @ remaining p1"
    by blast
  from "4.hyps"(2) [OF f refl l] obtain us where "remaining p1 = us @ remaining q" by blast
  with ts have "ts @ us \<noteq> [] \<and> remaining p = (ts @ us) @ remaining q" by simp
  then show ?case by blast
next
  case (5 res p)
  show ?case
  proof (cases "current_token p")
    case None
    with "5.prems" show ?thesis by (simp add: expr_loop.simps [of res p])
  next
    case (Some t)
    obtain kind op where t: "t = (kind, op)" by (cases t)
    show ?thesis
    proof (cases "kind \<in> {PLUS, MINUS, EQ, NEQ, LT, GT, LE, GE}")
      case False
      with "5.prems" Some t show ?thesis by (simp add: expr_loop.simps [of res p])
    next
      case True
      with "5.prems" Some t obtain r1 p1
        where f: "term' (next_token p) = Inr (r1, p1)"
          and l: "expr_loop (BinOp res op r1) p1 = Inr (r, q)"
        by (auto simp: expr_loop.simps [of res p] split: sum.splits)
      from "5.hyps"(1) [OF Some t [symmetric] True f] obtain ts
        where "remaining (next_token p) = ts @ remaining p1" by blast
      moreover from "5.hyps"(2) [OF Some t [symmetric] True f refl l] obtain us
        where "remaining p1 = us @ remaining q" by blast
      ultimately have "remaining p = (t # ts @ us) @ remaining q"
        using remaining_current [OF Some] by simp
      then show ?thesis by blast
    qed
  qed
qed


text \<open>
  The statement methods.  \<open>block_loop\<close> is the \<open>while\<close> loop of
  \<open>block_or_statement\<close>.  \<open>statement\<close> and \<open>assignment\<close> subscript the current
  token without testing it, which raises \<open>TypeError\<close> when it is \<open>None\<close>.
\<close>

definition assignment :: "parser \<Rightarrow> error + (node \<times> parser)" where
  "assignment p =
     (case current_token p of
        None \<Rightarrow> Inl none_subscript
      | Some (kind, name) \<Rightarrow>
          (case expect IDENTIFIER p of
             Inl e \<Rightarrow> Inl e
           | Inr p1 \<Rightarrow>
          (case expect ASSIGN p1 of
             Inl e \<Rightarrow> Inl e
           | Inr p2 \<Rightarrow>
          (case expr p2 of
             Inl e \<Rightarrow> Inl e
           | Inr (v, p3) \<Rightarrow>
          (case expect SEMICOLON p3 of
             Inl e \<Rightarrow> Inl e
           | Inr p4 \<Rightarrow> Inr (Assignment (Identifier name) v, p4))))))"

lemma assignment_consumes:
  assumes "assignment p = Inr (r, q)"
  shows "\<exists>ts. ts \<noteq> [] \<and> remaining p = ts @ remaining q"
proof -
  from assms obtain p1 p2 v p3 where
    a: "expect IDENTIFIER p = Inr p1" and b: "expect ASSIGN p1 = Inr p2"
    and c: "expr p2 = Inr (v, p3)" and d: "expect SEMICOLON p3 = Inr q"
    by (auto simp: assignment_def split: option.splits sum.splits)
  from expect_remaining [OF a] expect_remaining [OF b] expr_consumes(4) [OF c]
    expect_remaining [OF d]
  obtain t1 t2 ts t3 where "remaining p = ((IDENTIFIER, t1) # (ASSIGN, t2) # ts @ [(SEMICOLON, t3)]) @ remaining q"
    by auto
  then show ?thesis by blast
qed

function statement :: "parser \<Rightarrow> error + (node \<times> parser)"
  and if_statement :: "parser \<Rightarrow> error + (node \<times> parser)"
  and block_or_statement :: "parser \<Rightarrow> error + (node \<times> parser)"
  and block_loop :: "node list \<Rightarrow> parser \<Rightarrow> error + (node list \<times> parser)"
where
  "statement p =
     (case current_token p of
        None \<Rightarrow> Inl none_subscript
      | Some (kind, text) \<Rightarrow>
          if kind = IF then if_statement p
          else if kind = IDENTIFIER \<and> lookahead ASSIGN p then assignment p
          else
            (case expr p of
               Inl e \<Rightarrow> Inl e
             | Inr (e, p1) \<Rightarrow>
                 (case expect SEMICOLON p1 of
                    Inl e \<Rightarrow> Inl e
                  | Inr p2 \<Rightarrow> Inr (e, p2))))"
| "if_statement p =
     (case expect IF p of
        Inl e \<Rightarrow> Inl e
      | Inr p1 \<Rightarrow>
     (case expect LPAREN p1 of
        Inl e \<Rightarrow> Inl e
      | Inr p2 \<Rightarrow>
     (case expr p2 of
        Inl e \<Rightarrow> Inl e
      | Inr (condition, p3) \<Rightarrow>
     (case expect RPAREN p3 of
        Inl e \<Rightarrow> Inl e
      | Inr p4 \<Rightarrow>
     (case block_or_statement p4 of
        Inl e \<Rightarrow> Inl e
      | Inr (then_branch, p5) \<Rightarrow>
          (case current_token p5 of
             None \<Rightarrow> Inr (IfStatement condition then_branch None, p5)
           | Some (kind, text) \<Rightarrow>
               if kind = ELSE then
                 (case block_or_statement (next_token p5) of
                    Inl e \<Rightarrow> Inl e
                  | Inr (else_branch, p6) \<Rightarrow>
                      Inr (IfStatement condition then_branch (Some else_branch), p6))
               else Inr (IfStatement condition then_branch None, p5)))))))"
| "block_or_statement p =
     (case current_token p of
        None \<Rightarrow> statement p
      | Some (kind, text) \<Rightarrow>
          if kind = LBRACE then
            (case expect LBRACE p of
               Inl e \<Rightarrow> Inl e
             | Inr p1 \<Rightarrow>
            (case block_loop [] p1 of
               Inl e \<Rightarrow> Inl e
             | Inr (statements, p2) \<Rightarrow>
            (case expect RBRACE p2 of
               Inl e \<Rightarrow> Inl e
             | Inr p3 \<Rightarrow> Inr (Block statements, p3))))
          else statement p)"
| "block_loop statements p =
     (case current_token p of
        None \<Rightarrow> Inr (statements, p)
      | Some (kind, text) \<Rightarrow>
          if kind \<noteq> RBRACE then
            (case statement p of
               Inl e \<Rightarrow> Inl e
             | Inr (s, p1) \<Rightarrow> block_loop (statements @ [s]) p1)
          else Inr (statements, p))"
  by pat_completeness auto

lemma expect_length:
  "expect k p = Inr q \<Longrightarrow> length (remaining p) = Suc (length (remaining q))"
  using expect_remaining [of k p q] by auto

lemma expr_length:
  "expr p = Inr (r, q) \<Longrightarrow> length (remaining q) < length (remaining p)"
  using expr_consumes(4) [of p r q] by auto

lemma assignment_length:
  "assignment p = Inr (r, q) \<Longrightarrow> length (remaining q) < length (remaining p)"
  using assignment_consumes [of p r q] by auto

lemma statement_partial_decrease:
  "statement_if_statement_block_or_statement_block_loop_dom (Inl (Inl p)) \<Longrightarrow>
     statement p = Inr (r, q) \<Longrightarrow> length (remaining q) < length (remaining p)"
  "statement_if_statement_block_or_statement_block_loop_dom (Inl (Inr p)) \<Longrightarrow>
     if_statement p = Inr (r, q) \<Longrightarrow> length (remaining q) < length (remaining p)"
  "statement_if_statement_block_or_statement_block_loop_dom (Inr (Inl p)) \<Longrightarrow>
     block_or_statement p = Inr (r, q) \<Longrightarrow> length (remaining q) < length (remaining p)"
  "statement_if_statement_block_or_statement_block_loop_dom (Inr (Inr (stmts, p))) \<Longrightarrow>
     block_loop stmts p = Inr (rs, q) \<Longrightarrow> length (remaining q) \<le> length (remaining p)"
proof (induct p and p and p and stmts p arbitrary: r q and r q and r q and rs q
    rule: statement_if_statement_block_or_statement_block_loop.pinduct)
  case (1 p)
  from "1.prems" "1.hyps"(1) obtain kind lexeme where c: "current_token p = Some (kind, lexeme)"
    by (auto simp: statement.psimps split: option.splits)
  consider "kind = IF" | "kind \<noteq> IF" "kind = IDENTIFIER \<and> lookahead ASSIGN p"
    | "kind \<noteq> IF" "\<not> (kind = IDENTIFIER \<and> lookahead ASSIGN p)" by blast
  then show ?case
  proof cases
    case 1
    with "1.prems" "1.hyps"(1) c have "if_statement p = Inr (r, q)"
      by (simp add: statement.psimps)
    with "1.hyps"(2) [OF c refl 1] show ?thesis by simp
  next
    case 2
    with "1.prems" "1.hyps"(1) c have "assignment p = Inr (r, q)"
      by (simp add: statement.psimps)
    then show ?thesis by (rule assignment_length)
  next
    case 3
    with "1.prems" "1.hyps"(1) c obtain p1 where "expr p = Inr (r, p1)"
      "expect SEMICOLON p1 = Inr q"
      by (auto simp: statement.psimps split: sum.splits)
    then show ?thesis using expr_length expect_length by fastforce
  qed
next
  case (2 p)
  from "2.prems" "2.hyps"(1) obtain p1 p2 c p3 p4 t p5 where
    a: "expect IF p = Inr p1" "expect LPAREN p1 = Inr p2" "expr p2 = Inr (c, p3)"
      "expect RPAREN p3 = Inr p4" and b: "block_or_statement p4 = Inr (t, p5)"
    by (auto simp: if_statement.psimps split: sum.splits)
  from a have l4: "length (remaining p4) < length (remaining p)"
    using expr_length [of p2 c p3] expect_length [of IF p p1] expect_length [of LPAREN p1 p2]
      expect_length [of RPAREN p3 p4] by simp
  from "2.hyps"(2) [OF a(1,2,3) refl a(4) b]
  have l5: "length (remaining p5) < length (remaining p4)" .
  show ?case
  proof (cases "current_token p5")
    case None
    with "2.prems" "2.hyps"(1) a b have "q = p5"
      by (simp add: if_statement.psimps)
    with l4 l5 show ?thesis by simp
  next
    case (Some u)
    obtain kind lexeme where u: "u = (kind, lexeme)" by (cases u)
    show ?thesis
    proof (cases "kind = ELSE")
      case False
      with "2.prems" "2.hyps"(1) a b Some u have "q = p5"
        by (simp add: if_statement.psimps)
      with l4 l5 show ?thesis by simp
    next
      case True
      with "2.prems" "2.hyps"(1) a b Some u obtain e where
        e: "block_or_statement (next_token p5) = Inr (e, q)"
        by (auto simp: if_statement.psimps split: sum.splits)
      from "2.hyps"(3) [OF a(1,2,3) refl a(4) b refl Some u [symmetric] True e]
      have "length (remaining q) < length (remaining (next_token p5))" .
      with l4 l5 remaining_current [OF Some] show ?thesis by simp
    qed
  qed
next
  case (3 p)
  show ?case
  proof (cases "current_token p")
    case None
    with "3.prems" "3.hyps"(1) have "statement p = Inr (r, q)"
      by (simp add: block_or_statement.psimps)
    with "3.hyps"(2) [OF None] show ?thesis by simp
  next
    case (Some u)
    obtain kind lexeme where u: "u = (kind, lexeme)" by (cases u)
    show ?thesis
    proof (cases "kind = LBRACE")
      case False
      with "3.prems" "3.hyps"(1) Some u have "statement p = Inr (r, q)"
        by (simp add: block_or_statement.psimps)
      with "3.hyps"(4) [OF Some u [symmetric] False] show ?thesis by simp
    next
      case True
      with "3.prems" "3.hyps"(1) Some u obtain p1 ss p2 where
        a: "expect LBRACE p = Inr p1" and b: "block_loop [] p1 = Inr (ss, p2)"
        and c: "expect RBRACE p2 = Inr q"
        by (auto simp: block_or_statement.psimps split: sum.splits)
      from "3.hyps"(3) [OF Some u [symmetric] True a b]
      have "length (remaining p2) \<le> length (remaining p1)" .
      with expect_length [OF a] expect_length [OF c] show ?thesis by simp
    qed
  qed
next
  case (4 statements p)
  show ?case
  proof (cases "current_token p")
    case None
    with "4.prems" "4.hyps"(1) show ?thesis by (simp add: block_loop.psimps)
  next
    case (Some u)
    obtain kind lexeme where u: "u = (kind, lexeme)" by (cases u)
    show ?thesis
    proof (cases "kind \<noteq> RBRACE")
      case False
      with "4.prems" "4.hyps"(1) Some u show ?thesis by (simp add: block_loop.psimps)
    next
      case True
      with "4.prems" "4.hyps"(1) Some u obtain s p1 where
        a: "statement p = Inr (s, p1)" and b: "block_loop (statements @ [s]) p1 = Inr (rs, q)"
        by (auto simp: block_loop.psimps split: sum.splits)
      from "4.hyps"(2) [OF Some u [symmetric] True a]
        "4.hyps"(3) [OF Some u [symmetric] True a refl b]
      show ?thesis by simp
    qed
  qed
qed

termination statement
proof (relation "measure (\<lambda>x. case x of
      Inl (Inl p) \<Rightarrow> 3 * length (remaining p) + 1
    | Inl (Inr p) \<Rightarrow> 3 * length (remaining p)
    | Inr (Inl p) \<Rightarrow> 3 * length (remaining p) + 2
    | Inr (Inr (stmts, p)) \<Rightarrow> 3 * length (remaining p) + 2)", goal_cases)
  case 1
  show ?case by simp
next
  case (2 p x2 x y)
  show ?case by simp
next
  case (3 p b ba bb x y bc)
  then show ?case
    using expr_length [of ba x y] expect_length [of IF p b] expect_length [of LPAREN b ba]
      expect_length [of RPAREN y bc] by auto
next
  case (4 p b ba bb x y bc bd xa ya x2 xb yb)
  then show ?case
    using expr_length [of ba x y] expect_length [of IF p b] expect_length [of LPAREN b ba]
      expect_length [of RPAREN y bc] statement_partial_decrease(3) [of bc xa ya]
      remaining_current [of ya x2]
    by auto
next
  case (5 p)
  show ?case by simp
next
  case (6 p x2 x y b)
  then show ?case using expect_length [of LBRACE p b] by simp
next
  case (7 p x2 x y)
  show ?case by simp
next
  case (8 statements p x2 x y)
  show ?case by simp
next
  case (9 statements p x2 x y b xa ya)
  then show ?case using statement_partial_decrease(1) [of p xa ya] by auto
qed

declare statement.simps [simp del] if_statement.simps [simp del]
  block_or_statement.simps [simp del] block_loop.simps [simp del]

lemma statement_consumes:
  "statement p = Inr (r, q) \<Longrightarrow> \<exists>ts. ts \<noteq> [] \<and> remaining p = ts @ remaining q"
  "if_statement p = Inr (r, q) \<Longrightarrow> \<exists>ts. ts \<noteq> [] \<and> remaining p = ts @ remaining q"
  "block_or_statement p = Inr (r, q) \<Longrightarrow> \<exists>ts. ts \<noteq> [] \<and> remaining p = ts @ remaining q"
  "block_loop stmts p = Inr (rs, q) \<Longrightarrow> \<exists>ts. remaining p = ts @ remaining q"
proof (induct p and p and p and stmts p arbitrary: r q and r q and r q and rs q
    rule: statement_if_statement_block_or_statement_block_loop.induct)
  case (1 p)
  from "1.prems" obtain kind lexeme where c: "current_token p = Some (kind, lexeme)"
    by (auto simp: statement.simps [of p] split: option.splits)
  consider "kind = IF" | "kind \<noteq> IF" "kind = IDENTIFIER \<and> lookahead ASSIGN p"
    | "kind \<noteq> IF" "\<not> (kind = IDENTIFIER \<and> lookahead ASSIGN p)" by blast
  then show ?case
  proof cases
    case 1
    with "1.prems" c have "if_statement p = Inr (r, q)"
      by (simp add: statement.simps [of p])
    with "1.hyps" [OF c refl 1] show ?thesis by simp
  next
    case 2
    with "1.prems" c have "assignment p = Inr (r, q)"
      by (simp add: statement.simps [of p])
    then show ?thesis by (rule assignment_consumes)
  next
    case 3
    with "1.prems" c obtain p1 where e: "expr p = Inr (r, p1)"
      and x: "expect SEMICOLON p1 = Inr q"
      by (auto simp: statement.simps [of p] split: sum.splits)
    from expr_consumes(4) [OF e] expect_remaining [OF x] obtain ts t
      where "remaining p = (ts @ [(SEMICOLON, t)]) @ remaining q" by auto
    then show ?thesis by blast
  qed
next
  case (2 p)
  from "2.prems" obtain p1 p2 c p3 p4 t p5 where
    a: "expect IF p = Inr p1" "expect LPAREN p1 = Inr p2" "expr p2 = Inr (c, p3)"
      "expect RPAREN p3 = Inr p4" and b: "block_or_statement p4 = Inr (t, p5)"
    by (auto simp: if_statement.simps [of p] split: sum.splits)
  from expect_remaining [OF a(1)] expect_remaining [OF a(2)] expr_consumes(4) [OF a(3)]
    expect_remaining [OF a(4)]
  obtain t1 t2 ts t3 where
    l4: "remaining p = ((IF, t1) # (LPAREN, t2) # ts @ [(RPAREN, t3)]) @ remaining p4"
    by auto
  from "2.hyps"(1) [OF a(1,2,3) refl a(4) b]
  obtain us where l5: "remaining p4 = us @ remaining p5" by blast
  show ?case
  proof (cases "current_token p5")
    case None
    with "2.prems" a b have "q = p5"
      by (simp add: if_statement.simps [of p])
    with l4 l5 have "remaining p = (((IF, t1) # (LPAREN, t2) # ts @ [(RPAREN, t3)]) @ us) @ remaining q"
      by simp
    then show ?thesis by blast
  next
    case (Some u)
    obtain kind lexeme where u: "u = (kind, lexeme)" by (cases u)
    show ?thesis
    proof (cases "kind = ELSE")
      case False
      with "2.prems" a b Some u have "q = p5"
        by (simp add: if_statement.simps [of p])
      with l4 l5 have "remaining p = (((IF, t1) # (LPAREN, t2) # ts @ [(RPAREN, t3)]) @ us) @ remaining q"
        by simp
      then show ?thesis by blast
    next
      case True
      with "2.prems" a b Some u obtain e where
        e: "block_or_statement (next_token p5) = Inr (e, q)"
        by (auto simp: if_statement.simps [of p] split: sum.splits)
      from "2.hyps"(2) [OF a(1,2,3) refl a(4) b refl Some u [symmetric] True e]
      obtain vs where "remaining (next_token p5) = vs @ remaining q" by blast
      with l4 l5 remaining_current [OF Some]
      have "remaining p = (((IF, t1) # (LPAREN, t2) # ts @ [(RPAREN, t3)]) @ us @ u # vs) @ remaining q"
        by simp
      then show ?thesis by blast
    qed
  qed
next
  case (3 p)
  show ?case
  proof (cases "current_token p")
    case None
    with "3.prems" have "statement p = Inr (r, q)"
      by (simp add: block_or_statement.simps [of p])
    with "3.hyps"(1) [OF None] show ?thesis by simp
  next
    case (Some u)
    obtain kind lexeme where u: "u = (kind, lexeme)" by (cases u)
    show ?thesis
    proof (cases "kind = LBRACE")
      case False
      with "3.prems" Some u have "statement p = Inr (r, q)"
        by (simp add: block_or_statement.simps [of p])
      with "3.hyps"(3) [OF Some u [symmetric] False] show ?thesis by simp
    next
      case True
      with "3.prems" Some u obtain p1 ss p2 where
        a: "expect LBRACE p = Inr p1" and b: "block_loop [] p1 = Inr (ss, p2)"
        and c: "expect RBRACE p2 = Inr q"
        by (auto simp: block_or_statement.simps [of p] split: sum.splits)
      from "3.hyps"(2) [OF Some u [symmetric] True a b]
      obtain ts where "remaining p1 = ts @ remaining p2" by blast
      with expect_remaining [OF a] expect_remaining [OF c] obtain t1 t2 where
        "remaining p = ((LBRACE, t1) # ts @ [(RBRACE, t2)]) @ remaining q" by auto
      then show ?thesis by blast
    qed
  qed
next
  case (4 statements p)
  show ?case
  proof (cases "current_token p")
    case None
    with "4.prems" show ?thesis by (simp add: block_loop.simps [of statements p])
  next
    case (Some u)
    obtain kind lexeme where u: "u = (kind, lexeme)" by (cases u)
    show ?thesis
    proof (cases "kind \<noteq> RBRACE")
      case False
      with "4.prems" Some u show ?thesis by (simp add: block_loop.simps [of statements p])
    next
      case True
      with "4.prems" Some u obtain s p1 where
        a: "statement p = Inr (s, p1)" and b: "block_loop (statements @ [s]) p1 = Inr (rs, q)"
        by (auto simp: block_loop.simps [of statements p] split: sum.splits)
      from "4.hyps"(1) [OF Some u [symmetric] True a]
        "4.hyps"(2) [OF Some u [symmetric] True a refl b]
      obtain ts us where "remaining p = (ts @ us) @ remaining q" by auto
      then show ?thesis by blast
    qed
  qed
qed

lemma statement_length:
  "statement p = Inr (r, q) \<Longrightarrow> length (remaining q) < length (remaining p)"
  using statement_consumes(1) [of p r q] by auto

text \<open>\<open>parse\<close>: the loop collects statements until no token is left.\<close>

function parse_loop :: "node list \<Rightarrow> parser \<Rightarrow> error + (node list \<times> parser)" where
  "parse_loop statements p =
     (case current_token p of
        None \<Rightarrow> Inr (statements, p)
      | Some t \<Rightarrow>
          (case statement p of
             Inl e \<Rightarrow> Inl e
           | Inr (s, p1) \<Rightarrow> parse_loop (statements @ [s]) p1))"
  by pat_completeness auto
termination
proof (relation "measure (\<lambda>(statements, p). length (remaining p))", goal_cases)
  case 1
  show ?case by simp
next
  case (2 statements p t b s p1)
  then show ?case using statement_length [of p s p1] by auto
qed

declare parse_loop.simps [simp del]

definition parse :: "parser \<Rightarrow> error + node" where
  "parse p =
     (case parse_loop [] p of
        Inl e \<Rightarrow> Inl e
      | Inr (statements, p1) \<Rightarrow> Inr (Block statements))"

section \<open>The code generator\<close>

definition class_name :: "node \<Rightarrow> string" where
  "class_name n =
     (case n of
        Number v \<Rightarrow> ''Number''
      | Identifier name \<Rightarrow> ''Identifier''
      | BinOp l op r \<Rightarrow> ''BinOp''
      | Assignment i v \<Rightarrow> ''Assignment''
      | IfStatement c t e \<Rightarrow> ''IfStatement''
      | Block ss \<Rightarrow> ''Block'')"

text \<open>
  \<open>node.identifier.name\<close>: only an \<open>Identifier\<close> object has the attribute \<open>name\<close>.
\<close>

definition name_of :: "node \<Rightarrow> error + string" where
  "name_of n =
     (case n of
        Identifier name \<Rightarrow> Inr name
      | _ \<Rightarrow> Inl (AttributeError (quoted (class_name n) @ '' object has no attribute ''
                 @ quoted ''name'')))"

text \<open>\<open>'\n'.join(parts)\<close>.\<close>

fun join_lines :: "string list \<Rightarrow> string" where
  "join_lines [] = []"
| "join_lines [s] = s"
| "join_lines (s # t # ss) = s @ [CHR 0x0A] @ join_lines (t # ss)"

text \<open>
  \<open>generate_code\<close>.  The branches follow the \<open>isinstance\<close> chain; the final
  \<open>raise ValueError\<close> needs an object of another class and has no counterpart for a
  \<^typ>\<open>node\<close>.  \<open>generate_all\<close> renders the statements of a block from left to right,
  as the generator expression inside \<open>join\<close> does.
\<close>

fun generate_code :: "node \<Rightarrow> error + string"
  and generate_all :: "node list \<Rightarrow> error + string list"
where
  "generate_code (Number v) = py_str v"
| "generate_code (Identifier name) = Inr name"
| "generate_code (BinOp l op r) =
     (case generate_code l of
        Inl e \<Rightarrow> Inl e
      | Inr left \<Rightarrow>
     (case generate_code r of
        Inl e \<Rightarrow> Inl e
      | Inr right \<Rightarrow> Inr (''('' @ left @ '' '' @ op @ '' '' @ right @ '')'')))"
| "generate_code (Assignment i v) =
     (case name_of i of
        Inl e \<Rightarrow> Inl e
      | Inr name \<Rightarrow>
     (case generate_code v of
        Inl e \<Rightarrow> Inl e
      | Inr rendered \<Rightarrow> Inr (name @ '' = '' @ rendered @ '';'')))"
| "generate_code (IfStatement c t eb) =
     (case generate_code c of
        Inl e \<Rightarrow> Inl e
      | Inr condition \<Rightarrow>
     (case generate_code t of
        Inl e \<Rightarrow> Inl e
      | Inr then_branch \<Rightarrow>
     (case (case eb of None \<Rightarrow> Inr [] | Some n \<Rightarrow> generate_code n) of
        Inl e \<Rightarrow> Inl e
      | Inr else_branch \<Rightarrow>
          Inr (''if ('' @ condition @ '') {'' @ [CHR 0x0A] @ ''  '' @ then_branch
               @ [CHR 0x0A] @ ''}''
               @ (if else_branch \<noteq> []
                  then '' else {'' @ [CHR 0x0A] @ ''  '' @ else_branch @ [CHR 0x0A] @ ''}''
                  else [])))))"
| "generate_code (Block statements) =
     (case generate_all statements of
        Inl e \<Rightarrow> Inl e
      | Inr parts \<Rightarrow> Inr (join_lines parts))"
| "generate_all [] = Inr []"
| "generate_all (s # ss) =
     (case generate_code s of
        Inl e \<Rightarrow> Inl e
      | Inr part \<Rightarrow>
     (case generate_all ss of
        Inl e \<Rightarrow> Inl e
      | Inr parts \<Rightarrow> Inr (part # parts)))"

section \<open>The pipeline\<close>

text \<open>
  The body of the \<open>try\<close> block of \<open>compile_code\<close>, from the text to the generated text:
  \<open>lex\<close>, \<open>Parser\<close>, \<open>parse\<close>, \<open>generate_code\<close>.  An exception raised on the way is the
  \<open>Inl\<close> result, and then there is no generated text.
\<close>

definition compile_code :: "string \<Rightarrow> error + string" where
  "compile_code code =
     (case parse (Parser (lex_tokens code)) of
        Inl e \<Rightarrow> Inl e
      | Inr ast \<Rightarrow> generate_code ast)"


section \<open>Properties of the pipeline\<close>

definition additive_kinds :: "token_kind set" where
  "additive_kinds = {PLUS, MINUS, EQ, NEQ, LT, GT, LE, GE}"

definition multiplicative_kinds :: "token_kind set" where
  "multiplicative_kinds = {MULTIPLY, DIVIDE}"

lemmas parser_unfold = factor.simps term'.simps term_loop.simps expr.simps expr_loop.simps
  statement.simps parse_loop.simps parse_def Parser_def next_token_def expect_def lookahead_def

text \<open>
  C3.  A multiplicative operator binds tighter than an operator of the level that the
  additive and the comparison operators share, on either side of it, and operators of the
  shared level group to the left.  In particular the pipeline turns \<open>1 + 2 * 3;\<close> into
  \<open>(1 + (2 * 3))\<close>.
\<close>

theorem precedence_and_associativity:
  assumes "k1 \<in> additive_kinds" and "k2 \<in> additive_kinds" and "km \<in> multiplicative_kinds"
  shows "parse (Parser [(IDENTIFIER, x), (k1, o1), (IDENTIFIER, y), (km, om), (IDENTIFIER, z),
             (SEMICOLON, s)])
           = Inr (Block [BinOp (Identifier x) o1 (BinOp (Identifier y) om (Identifier z))])
       \<and> parse (Parser [(IDENTIFIER, x), (km, om), (IDENTIFIER, y), (k1, o1), (IDENTIFIER, z),
             (SEMICOLON, s)])
           = Inr (Block [BinOp (BinOp (Identifier x) om (Identifier y)) o1 (Identifier z)])
       \<and> parse (Parser [(IDENTIFIER, x), (k1, o1), (IDENTIFIER, y), (k2, o2), (IDENTIFIER, z),
             (SEMICOLON, s)])
           = Inr (Block [BinOp (BinOp (Identifier x) o1 (Identifier y)) o2 (Identifier z)])
       \<and> compile_code ''1 + 2 * 3;'' = Inr ''(1 + (2 * 3))''"
proof -
  have "compile_code ''1 + 2 * 3;'' = Inr ''(1 + (2 * 3))''"
    by code_simp
  with assms show ?thesis
    unfolding additive_kinds_def multiplicative_kinds_def
    by (auto simp: parser_unfold)
qed

theorem precedence_and_associativity_witness:
  "PLUS \<in> additive_kinds \<and> LT \<in> additive_kinds \<and> MULTIPLY \<in> multiplicative_kinds
   \<and> parse (Parser [(IDENTIFIER, ''a''), (PLUS, ''+''), (IDENTIFIER, ''b''), (MULTIPLY, ''*''),
        (IDENTIFIER, ''c''), (SEMICOLON, '';'')])
       = Inr (Block [BinOp (Identifier ''a'') ''+'' (BinOp (Identifier ''b'') ''*'' (Identifier ''c''))])
   \<and> parse (Parser [(IDENTIFIER, ''a''), (PLUS, ''+''), (IDENTIFIER, ''b''), (LT, ''<''),
        (IDENTIFIER, ''c''), (SEMICOLON, '';'')])
       = Inr (Block [BinOp (BinOp (Identifier ''a'') ''+'' (Identifier ''b'')) ''<'' (Identifier ''c'')])"
proof -
  have h: "PLUS \<in> additive_kinds" "LT \<in> additive_kinds" "MULTIPLY \<in> multiplicative_kinds"
    by (simp_all add: additive_kinds_def multiplicative_kinds_def)
  from precedence_and_associativity [OF h, of "''a''" "''+''" "''b''" "''*''" "''c''" "'';''" "''<''"]
  show ?thesis using h by simp
qed

text \<open>
  C4.  The pipeline on the text \<open>x = 5;\<close> succeeds and returns the same text \<open>x = 5;\<close>.
\<close>

theorem assignment_round_trip:
  "compile_code ''x = 5;'' = Inr ''x = 5;''"
  by code_simp

text \<open>
  C8.  The pipeline on \<open>if (x) y = 1\<close> fails: \<open>expect\<close> asks for \<open>SEMICOLON\<close> at the end
  of the input (reported as \<open>EOF\<close>), the error is a \<open>SyntaxError\<close>, and no text is
  returned.
\<close>

theorem missing_semicolon_fails:
  "compile_code ''if (x) y = 1'' = Inl (expected_error SEMICOLON ''EOF'')
   \<and> expected_error SEMICOLON ''EOF''
       = SyntaxError (''Esperado '' @ quoted ''SEMICOLON'' @ '' mas encontrado '' @ quoted ''EOF'')
   \<and> isl (compile_code ''if (x) y = 1'')"
proof -
  have "compile_code ''if (x) y = 1'' = Inl (expected_error SEMICOLON ''EOF'')"
    by code_simp
  then show ?thesis by (simp add: expected_error_def)
qed

text \<open>
  Whether an error names an expected token kind, as the errors of \<open>expect\<close> do: its
  message starts with \<open>Esperado '<kind>' mas encontrado\<close> for one of the kinds.
\<close>

definition all_kinds :: "token_kind list" where
  "all_kinds = [IF, ELSE, NUMBER, PLUS, MINUS, MULTIPLY, DIVIDE, LPAREN, RPAREN, LBRACE, RBRACE,
     SEMICOLON, EQ, NEQ, LT, GT, LE, GE, ASSIGN, IDENTIFIER, WHITESPACE]"

definition starts_with :: "string \<Rightarrow> string \<Rightarrow> bool" where
  "starts_with w s = (take (length w) s = w)"

definition names_expected_kind :: "error \<Rightarrow> bool" where
  "names_expected_kind e =
     (case e of
        SyntaxError m \<Rightarrow>
          list_ex (\<lambda>k. starts_with (''Esperado '' @ quoted (kind_name k) @ '' mas encontrado '') m)
            all_kinds
      | _ \<Rightarrow> False)"

lemma all_kinds_complete: "k \<in> set all_kinds"
  by (cases k) (simp_all add: all_kinds_def)

lemma starts_with_append: "starts_with w (w @ r)"
  by (simp add: starts_with_def)

lemma expected_error_names_kind: "names_expected_kind (expected_error k found)"
proof -
  let ?w = "''Esperado '' @ quoted (kind_name k) @ '' mas encontrado ''"
  have "expected_error k found = SyntaxError (?w @ quoted found)"
    by (simp add: expected_error_def)
  moreover have "list_ex (\<lambda>k. starts_with (''Esperado '' @ quoted (kind_name k) @ '' mas encontrado '')
      (?w @ quoted found)) all_kinds"
    unfolding list_ex_iff using all_kinds_complete [of k] starts_with_append [of ?w "quoted found"]
    by blast
  ultimately show ?thesis
    by (simp only: names_expected_kind_def error.case)
qed

lemma unexpected_not_named:
  "\<not> names_expected_kind (unexpected_token lexeme)" "\<not> names_expected_kind unexpected_end"
  by (simp_all add: names_expected_kind_def unexpected_token_def unexpected_end_def all_kinds_def
      starts_with_def quoted_def)

text \<open>
  C7, as the code has it.  Entered with no current token, \<open>factor\<close> raises the
  \<open>SyntaxError\<close> that reports the end of the input; entered with a token that is none of
  \<open>NUMBER\<close>, \<open>IDENTIFIER\<close> and \<open>LPAREN\<close>, it raises the \<open>SyntaxError\<close> that carries
  the text of that token.  Neither message names an expected token kind.  The pipeline on
  \<open>1 +;\<close> fails with the second error, on the token \<open>;\<close>.
\<close>

theorem factor_failure:
  "(current_token p = None \<longrightarrow> factor p = Inl unexpected_end)
   \<and> (current_token p = Some (kind, lexeme) \<and> kind \<notin> {NUMBER, IDENTIFIER, LPAREN}
        \<longrightarrow> factor p = Inl (unexpected_token lexeme))
   \<and> unexpected_end = SyntaxError ''Erro de sintaxe: token inesperado no final da entrada''
   \<and> unexpected_token lexeme = SyntaxError (''Erro de sintaxe: token inesperado '' @ quoted lexeme)
   \<and> \<not> names_expected_kind unexpected_end
   \<and> \<not> names_expected_kind (unexpected_token lexeme)
   \<and> compile_code ''1 +;'' = Inl (unexpected_token '';'')"
proof -
  have "compile_code ''1 +;'' = Inl (unexpected_token '';'')"
    by code_simp
  then show ?thesis
    using unexpected_not_named(1) [of lexeme] unexpected_not_named(2)
    by (auto simp: factor.simps [of p] unexpected_end_def unexpected_token_def)
qed

theorem factor_failure_witness:
  "current_token (Parser []) = None
   \<and> factor (Parser []) = Inl unexpected_end
   \<and> current_token (Parser [(SEMICOLON, '';'')]) = Some (SEMICOLON, '';'')
   \<and> SEMICOLON \<notin> {NUMBER, IDENTIFIER, LPAREN}
   \<and> factor (Parser [(SEMICOLON, '';'')]) = Inl (unexpected_token '';'')"
  using factor_failure [of "Parser []"]
    factor_failure [of "Parser [(SEMICOLON, '';'')]" SEMICOLON "'';''"]
  by (simp add: Parser_def next_token_def)

text \<open>
  The claim C7 as stated fails on \<open>1 +;\<close>: the error of \<open>factor\<close> there carries the
  token \<open>;\<close> and names no expected token kind.
\<close>

theorem factor_error_names_no_kind:
  "compile_code ''1 +;''
     = Inl (SyntaxError (''Erro de sintaxe: token inesperado '' @ quoted '';''))
   \<and> \<not> names_expected_kind
         (SyntaxError (''Erro de sintaxe: token inesperado '' @ quoted '';''))"
  by code_simp

text \<open>
  The rendering of an \<open>IfStatement\<close> whose condition and then-branch render to
  \<open>condition\<close> and \<open>then_branch\<close>: \<open>if (condition) {\<close>, a new line, two blanks and
  \<open>then_branch\<close>, a new line and \<open>}\<close>.  When the else branch is absent, nothing
  follows.  When the else branch is present and its rendering is not empty, \<open> else {\<close>,
  a new line, two blanks, that rendering, a new line and \<open>}\<close> follow.
\<close>

lemma if_rendering:
  assumes "generate_code c = Inr condition" and "generate_code t = Inr then_branch"
  shows "generate_code (IfStatement c t None)
           = Inr (''if ('' @ condition @ '') {\<newline>  '' @ then_branch @ ''\<newline>}'')
       \<and> (generate_code e = Inr else_branch \<and> else_branch \<noteq> [] \<longrightarrow>
            generate_code (IfStatement c t (Some e))
              = Inr (''if ('' @ condition @ '') {\<newline>  '' @ then_branch @ ''\<newline>}''
                     @ '' else {\<newline>  '' @ else_branch @ ''\<newline>}''))"
  using assms by simp

text \<open>
  C2 does not hold of the code.  The claim asks for the else part at every \<open>IfStatement\<close>
  whose else branch is present, an empty \<open>Block\<close> included.  The generator decides on
  the else branch by the node, but on the else part by the rendered text of the branch:
  an else branch that is an empty \<open>Block\<close> renders to the empty text, and the else part
  is left out.  The pipeline reaches such a node from \<open>if (x) y = 1; else {}\<close>, and
  returns the text of the statement without its else part.  A then-branch that is an
  empty \<open>Block\<close> is rendered with its braces all the same, as \<open>if (x) {} else y = 1;\<close>
  shows.
\<close>

theorem empty_else_block_dropped:
  "parse (Parser (lex_tokens ''if (x) y = 1; else {}''))
     = Inr (Block [IfStatement (Identifier ''x'') (Assignment (Identifier ''y'') (Number 1))
              (Some (Block []))])
   \<and> generate_code (Identifier ''x'') = Inr ''x''
   \<and> generate_code (Assignment (Identifier ''y'') (Number 1)) = Inr ''y = 1;''
   \<and> generate_code (Block []) = Inr []
   \<and> compile_code ''if (x) y = 1; else {}'' = Inr ''if (x) {\<newline>  y = 1;\<newline>}''
   \<and> compile_code ''if (x) y = 1; else {}''
       \<noteq> Inr (''if ('' @ ''x'' @ '') {\<newline>  '' @ ''y = 1;'' @ ''\<newline>}''
              @ '' else {\<newline>  '' @ [] @ ''\<newline>}'')
   \<and> compile_code ''if (x) {} else y = 1;''
       = Inr (''if ('' @ ''x'' @ '') {\<newline>  '' @ [] @ ''\<newline>}''
              @ '' else {\<newline>  '' @ ''y = 1;'' @ ''\<newline>}'')"
  by code_simp

section \<open>Properties of the lexer\<close>

subsection \<open>Character classes\<close>

definition is_punct :: "char \<Rightarrow> bool" where
  "is_punct c = (c \<in> set ''+-*/(){};=!<>'')"

lemma is_word_digit: "is_digit c \<Longrightarrow> is_word c"
  by (auto simp: is_digit_def is_word_def in_ranges_def)

lemma is_word_ident_start: "is_ident_start c \<Longrightarrow> is_word c"
  by (auto simp: is_ident_start_def is_word_def in_ranges_def)

lemma not_digit_ident_start: "is_ident_start c \<Longrightarrow> \<not> is_digit c"
  by (auto simp: is_ident_start_def is_digit_def in_ranges_def)

lemma not_space_word: "is_word c \<Longrightarrow> \<not> is_space c"
  by (auto simp: is_space_def is_word_def in_ranges_def)

lemma punct_chars_not_word: "list_all (\<lambda>c. \<not> is_word c) ''+-*/(){};=!<>''"
  by code_simp

lemma punct_not_word: "is_punct c \<Longrightarrow> \<not> is_word c"
  using punct_chars_not_word unfolding is_punct_def list_all_iff by blast

lemma word_if: "list_all is_word ''if''" "list_all is_word ''else''"
  by code_simp+

subsection \<open>Matches of the single patterns\<close>

lemma takeWhile_run:
  assumes "list_all P xs" and "rest = [] \<or> \<not> P (hd rest)"
  shows "takeWhile P (xs @ rest) = xs"
  using assms by (cases rest) (auto simp: list_all_iff takeWhile_append2 takeWhile_eq_all_conv)

lemma keyword_match_word_run:
  assumes "match_pattern (Keyword w) prev s = Some n" and "w \<noteq> []" and "list_all is_word w"
  shows "takeWhile is_word s = w"
proof -
  from assms(1) have t: "take (length w) s = w"
    and b: "at_boundary (char_before_end prev w) (first_char (drop (length w) s))"
    by (auto split: if_splits)
  from assms(2,3) have "is_word (last w)" by (simp add: list_all_iff)
  with b assms(2) have "\<not> word_side (first_char (drop (length w) s))"
    by (simp add: at_boundary_def char_before_end_def word_side_def)
  then have "drop (length w) s = [] \<or> \<not> is_word (hd (drop (length w) s))"
    by (cases "drop (length w) s") (simp_all add: first_char_def word_side_def)
  with assms(3) have "takeWhile is_word (w @ drop (length w) s) = w"
    by (rule takeWhile_run)
  moreover from t have "w @ drop (length w) s = s"
    by (metis append_take_drop_id)
  ultimately show ?thesis by simp
qed

lemma keyword_no_match:
  assumes "takeWhile is_word s \<noteq> w" and "w \<noteq> []" and "list_all is_word w"
  shows "match_pattern (Keyword w) prev s = None"
proof (cases "match_pattern (Keyword w) prev s")
  case None
  then show ?thesis .
next
  case (Some n)
  from keyword_match_word_run [OF Some assms(2,3)] assms(1) show ?thesis by simp
qed

lemma literal_no_match:
  assumes "c \<noteq> hd w" and "w \<noteq> []"
  shows "match_pattern (Literal w) prev (c # cs) = None"
  using assms by (cases w) auto

lemma match_here_ident:
  assumes "is_ident_start c" and "list_all is_word cs"
    and "rest = [] \<or> \<not> is_word (hd rest)"
    and "c # cs \<noteq> ''if''" and "c # cs \<noteq> ''else''"
  shows "match_here prev (c # cs @ rest) = Some (IDENTIFIER, Suc (length cs))"
proof -
  have w: "is_word c" using assms(1) by (rule is_word_ident_start)
  have tw: "takeWhile is_word (cs @ rest) = cs"
    using assms(2,3) by (rule takeWhile_run)
  with w have run: "takeWhile is_word (c # cs @ rest) = c # cs" by simp
  have k1: "match_pattern (Keyword ''if'') prev (c # cs @ rest) = None"
    by (rule keyword_no_match) (use run assms(4) word_if in simp_all)
  have k2: "match_pattern (Keyword ''else'') prev (c # cs @ rest) = None"
    by (rule keyword_no_match) (use run assms(5) word_if in simp_all)
  have d: "match_pattern Digits prev (c # cs @ rest) = None"
    using not_digit_ident_start [OF assms(1)] by simp
  have l: "\<And>w. w \<noteq> [] \<Longrightarrow> is_punct (hd w) \<Longrightarrow> match_pattern (Literal w) prev (c # cs @ rest) = None"
    using punct_not_word w literal_no_match by metis
  have i: "match_pattern Ident prev (c # cs @ rest) = Some (Suc (length cs))"
    using assms(1) tw by simp
  show ?thesis
    unfolding match_here_def TOKENS_def first_match.simps k1 k2 d i
    by (simp add: l is_punct_def del: match_pattern.simps)
qed

lemma match_here_number:
  assumes "is_digit c" and "list_all is_digit cs"
    and "rest = [] \<or> \<not> is_digit (hd rest)"
  shows "match_here prev (c # cs @ rest) = Some (NUMBER, Suc (length cs))"
proof -
  have "takeWhile is_digit (cs @ rest) = cs"
    using assms(2,3) by (rule takeWhile_run)
  with assms(1) have d: "match_pattern Digits prev (c # cs @ rest) = Some (Suc (length cs))"
    by simp
  have "\<not> is_digit (CHR ''i'')" "\<not> is_digit (CHR ''e'')"
    by code_simp+
  with assms(1) have "c \<noteq> CHR ''i''" "c \<noteq> CHR ''e''"
    by blast+
  then have k: "match_pattern (Keyword ''if'') prev (c # cs @ rest) = None"
    "match_pattern (Keyword ''else'') prev (c # cs @ rest) = None"
    by simp_all
  show ?thesis
    unfolding match_here_def TOKENS_def first_match.simps k d by simp
qed

subsection \<open>Tokens in context\<close>

definition is_identifier :: "string \<Rightarrow> bool" where
  "is_identifier s = (case s of [] \<Rightarrow> False | c # cs \<Rightarrow> is_ident_start c \<and> list_all is_word cs)"

definition is_number :: "string \<Rightarrow> bool" where
  "is_number s = (s \<noteq> [] \<and> list_all is_digit s)"

lemma lex_identifier:
  assumes "is_identifier name" and "name \<noteq> ''if''" and "name \<noteq> ''else''"
    and "rest = [] \<or> \<not> is_word (hd rest)"
  shows "lex_from prev (name @ rest) = (IDENTIFIER, name) # lex_from (Some (last name)) rest"
proof -
  from assms(1) obtain c cs where n: "name = c # cs" and c: "is_ident_start c"
    and cs: "list_all is_word cs"
    by (cases name) (auto simp: is_identifier_def)
  from match_here_ident [OF c cs assms(4), of prev] assms(2,3) n
  have "match_here prev (c # cs @ rest) = Some (IDENTIFIER, Suc (length cs))" by simp
  then show ?thesis by (simp add: n)
qed

lemma lex_number:
  assumes "is_number ds" and "rest = [] \<or> \<not> is_digit (hd rest)"
  shows "lex_from prev (ds @ rest) = (NUMBER, ds) # lex_from (Some (last ds)) rest"
proof -
  from assms(1) obtain c cs where n: "ds = c # cs" and c: "is_digit c"
    and cs: "list_all is_digit cs"
    by (cases ds) (auto simp: is_number_def)
  from match_here_number [OF c cs assms(2), of prev]
  have "match_here prev (c # cs @ rest) = Some (NUMBER, Suc (length cs))" .
  then show ?thesis by (simp add: n)
qed

lemma class_facts:
  "\<not> is_digit (CHR ''+'')"
  "\<not> is_ident_start (CHR ''+'')"
  "\<not> is_word (CHR ''+'')"
  "\<not> is_space (CHR ''+'')"
  "\<not> is_digit (CHR ''-'')"
  "\<not> is_ident_start (CHR ''-'')"
  "\<not> is_word (CHR ''-'')"
  "\<not> is_space (CHR ''-'')"
  "\<not> is_digit (CHR ''*'')"
  "\<not> is_ident_start (CHR ''*'')"
  "\<not> is_word (CHR ''*'')"
  "\<not> is_space (CHR ''*'')"
  "\<not> is_digit (CHR ''/'')"
  "\<not> is_ident_start (CHR ''/'')"
  "\<not> is_word (CHR ''/'')"
  "\<not> is_space (CHR ''/'')"
  "\<not> is_digit (CHR ''('')"
  "\<not> is_ident_start (CHR ''('')"
  "\<not> is_word (CHR ''('')"
  "\<not> is_space (CHR ''('')"
  "\<not> is_digit (CHR '')'')"
  "\<not> is_ident_start (CHR '')'')"
  "\<not> is_word (CHR '')'')"
  "\<not> is_space (CHR '')'')"
  "\<not> is_digit (CHR ''{'')"
  "\<not> is_ident_start (CHR ''{'')"
  "\<not> is_word (CHR ''{'')"
  "\<not> is_space (CHR ''{'')"
  "\<not> is_digit (CHR ''}'')"
  "\<not> is_ident_start (CHR ''}'')"
  "\<not> is_word (CHR ''}'')"
  "\<not> is_space (CHR ''}'')"
  "\<not> is_digit (CHR '';'')"
  "\<not> is_ident_start (CHR '';'')"
  "\<not> is_word (CHR '';'')"
  "\<not> is_space (CHR '';'')"
  "\<not> is_digit (CHR ''='')"
  "\<not> is_ident_start (CHR ''='')"
  "\<not> is_word (CHR ''='')"
  "\<not> is_space (CHR ''='')"
  "\<not> is_digit (CHR ''!'')"
  "\<not> is_ident_start (CHR ''!'')"
  "\<not> is_word (CHR ''!'')"
  "\<not> is_space (CHR ''!'')"
  "\<not> is_digit (CHR ''<'')"
  "\<not> is_ident_start (CHR ''<'')"
  "\<not> is_word (CHR ''<'')"
  "\<not> is_space (CHR ''<'')"
  "\<not> is_digit (CHR ''>'')"
  "\<not> is_ident_start (CHR ''>'')"
  "\<not> is_word (CHR ''>'')"
  "\<not> is_space (CHR ''>'')"
  "\<not> is_digit (CHR '' '')"
  "\<not> is_ident_start (CHR '' '')"
  "\<not> is_word (CHR '' '')"
  "is_space (CHR '' '')"
  by code_simp+

lemma lex_blank:
  assumes "rest = [] \<or> \<not> is_space (hd rest)"
  shows "lex_from prev (CHR '' '' # rest) = lex_from (Some (CHR '' '')) rest"
proof -
  have "takeWhile is_space (CHR '' '' # rest) = [CHR '' '']"
    using assms by (cases rest) (simp_all add: class_facts)
  then have "match_here prev (CHR '' '' # rest) = Some (WHITESPACE, 1)"
    by (simp add: match_here_def TOKENS_def class_facts)
  then show ?thesis by simp
qed

lemma lex_punctuation:
  "lex_from prev (CHR ''('' # rest) = (LPAREN, ''('') # lex_from (Some (CHR ''('')) rest"
  "lex_from prev (CHR '')'' # rest) = (RPAREN, '')'') # lex_from (Some (CHR '')'')) rest"
  "lex_from prev (CHR '';'' # rest) = (SEMICOLON, '';'') # lex_from (Some (CHR '';'')) rest"
  by (simp_all add: match_here_def TOKENS_def class_facts)

lemma lex_operator:
  "lex_from prev (''+'' @ CHR '' '' # rest) = (PLUS, ''+'') # lex_from (Some (CHR ''+'')) (CHR '' '' # rest)"
  "lex_from prev (''-'' @ CHR '' '' # rest) = (MINUS, ''-'') # lex_from (Some (CHR ''-'')) (CHR '' '' # rest)"
  "lex_from prev (''*'' @ CHR '' '' # rest) = (MULTIPLY, ''*'') # lex_from (Some (CHR ''*'')) (CHR '' '' # rest)"
  "lex_from prev (''/'' @ CHR '' '' # rest) = (DIVIDE, ''/'') # lex_from (Some (CHR ''/'')) (CHR '' '' # rest)"
  "lex_from prev (''=='' @ CHR '' '' # rest) = (EQ, ''=='') # lex_from (Some (CHR ''='')) (CHR '' '' # rest)"
  "lex_from prev (''!='' @ CHR '' '' # rest) = (NEQ, ''!='') # lex_from (Some (CHR ''='')) (CHR '' '' # rest)"
  "lex_from prev (''<'' @ CHR '' '' # rest) = (LT, ''<'') # lex_from (Some (CHR ''<'')) (CHR '' '' # rest)"
  "lex_from prev (''>'' @ CHR '' '' # rest) = (GT, ''>'') # lex_from (Some (CHR ''>'')) (CHR '' '' # rest)"
  by (simp_all add: match_here_def TOKENS_def class_facts)

subsection \<open>Characters that no pattern consumes\<close>

text \<open>The characters that none of the patterns can consume, wherever they stand.\<close>

definition unmatched_char :: "char \<Rightarrow> bool" where
  "unmatched_char c = (\<not> is_word c \<and> \<not> is_space c \<and> \<not> is_punct c)"

lemma takeWhile_stop:
  assumes "\<not> P c"
  shows "takeWhile P (s @ c # s2) = takeWhile P s"
  using assms by (induction s) simp_all

lemma take_eq_stop:
  assumes "c \<notin> set (tl w)" and "s \<noteq> []"
  shows "take (length w) (s @ c # s2) = w \<longleftrightarrow> take (length w) s = w"
proof (cases "length w \<le> length s")
  case True
  then show ?thesis by simp
next
  case False
  then have "length s < length w" by simp
  then have t: "take (length w) (s @ c # s2) = s @ c # take (length w - Suc (length s)) s2"
    by (simp add: take_Cons')
  from assms(2) obtain a as where s: "s = a # as" by (cases s) auto
  have "c \<in> set (tl w)" if "take (length w) (s @ c # s2) = w"
  proof -
    from that t have "w = a # as @ c # take (length w - Suc (length s)) s2"
      by (simp add: s)
    then have "tl w = as @ c # take (length w - Suc (length s)) s2"
      by (cases w) simp_all
    then show ?thesis by simp
  qed
  moreover have "take (length w) s \<noteq> w"
    using False take_eq_length_le by blast
  ultimately show ?thesis using assms(1) by blast
qed

lemma first_char_drop_stop:
  assumes "\<not> is_word c" and "n \<le> length s"
  shows "word_side (first_char (drop n (s @ c # s2))) = word_side (first_char (drop n s))"
proof (cases "n = length s")
  case True
  with assms(1) show ?thesis by (simp add: first_char_def word_side_def)
next
  case False
  with assms(2) have "n < length s" by simp
  then obtain a as where "drop n s = a # as" by (cases "drop n s") auto
  with \<open>n < length s\<close> show ?thesis by (simp add: first_char_def)
qed

lemma match_pattern_stop:
  assumes "\<not> is_word c" and "\<not> is_space c" and "s \<noteq> []"
    and "\<forall>w. p = Keyword w \<or> p = Literal w \<longrightarrow> c \<notin> set (tl w)"
  shows "match_pattern p prev (s @ c # s2) = match_pattern p prev s"
proof (cases p)
  case (Keyword w)
  with assms(4) have cw: "c \<notin> set (tl w)" by simp
  from assms(3) have f: "first_char (s @ c # s2) = first_char s"
    by (cases s) (simp_all add: first_char_def)
  show ?thesis
  proof (cases "take (length w) s = w")
    case False
    with take_eq_stop [OF cw assms(3), of s2] Keyword show ?thesis by simp
  next
    case True
    then have "length w \<le> length s" by (rule take_eq_length_le)
    with assms(1) have "word_side (first_char (drop (length w) (s @ c # s2)))
        = word_side (first_char (drop (length w) s))"
      by (intro first_char_drop_stop)
    with True take_eq_stop [OF cw assms(3), of s2] f Keyword show ?thesis
      by (simp add: at_boundary_def)
  qed
next
  case (Literal w)
  with assms(4) have "c \<notin> set (tl w)" by simp
  from take_eq_stop [OF this assms(3), of s2] Literal show ?thesis by simp
next
  case Digits
  from assms(1) have "\<not> is_digit c" using is_word_digit by blast
  with Digits show ?thesis by (simp add: takeWhile_stop)
next
  case Ident
  with assms(1,3) show ?thesis by (cases s) (simp_all add: takeWhile_stop)
next
  case Spaces
  with assms(2) show ?thesis by (simp add: takeWhile_stop)
qed

lemma first_match_stop:
  assumes "\<not> is_word c" and "\<not> is_space c" and "s \<noteq> []"
    and "\<forall>(k, p) \<in> set alts. \<forall>w. p = Keyword w \<or> p = Literal w \<longrightarrow> c \<notin> set (tl w)"
  shows "first_match alts prev (s @ c # s2) = first_match alts prev s"
  using assms(4)
proof (induction alts)
  case Nil
  show ?case by simp
next
  case (Cons a alts)
  obtain k p where a: "a = (k, p)" by (cases a)
  with Cons.prems have "\<forall>w. p = Keyword w \<or> p = Literal w \<longrightarrow> c \<notin> set (tl w)" by simp
  from match_pattern_stop [OF assms(1,2,3) this] Cons a show ?case
    by (simp split: option.splits)
qed

text \<open>
  The only character that a pattern of \<open>TOKENS\<close> has behind its first one, apart from
  word characters, is \<open>=\<close>.
\<close>

lemma TOKENS_chars:
  assumes "\<not> is_word c" and "c \<noteq> CHR ''=''"
  shows "\<forall>(k, p) \<in> set TOKENS. \<forall>w. p = Keyword w \<or> p = Literal w \<longrightarrow> c \<notin> set (tl w)"
proof -
  have "c \<notin> set ''if''" "c \<notin> set ''else''"
    using assms(1) word_if unfolding list_all_iff by blast+
  then have "c \<notin> set (tl ''if'')" "c \<notin> set (tl ''else'')" by simp_all
  with assms(2) show ?thesis
    unfolding TOKENS_def by (intro ballI) auto
qed

lemma match_here_stop:
  assumes "\<not> is_word c" and "\<not> is_space c" and "c \<noteq> CHR ''=''" and "s \<noteq> []"
  shows "match_here prev (s @ c # s2) = match_here prev s"
  unfolding match_here_def using assms(1,2,4) TOKENS_chars [OF assms(1,3)]
  by (rule first_match_stop)

lemma match_here_unmatched:
  assumes "unmatched_char c"
  shows "match_here prev (c # s2) = None"
proof -
  from assms have d: "\<not> is_digit c" "\<not> is_ident_start c" "\<not> is_space c"
    using is_word_digit is_word_ident_start by (auto simp: unmatched_char_def)
  have w: "\<not> is_word c" using assms by (simp add: unmatched_char_def)
  then have k: "match_pattern (Keyword ''if'') prev (c # s2) = None"
    "match_pattern (Keyword ''else'') prev (c # s2) = None"
    using word_if by (auto simp: list_all_iff)
  have l: "\<And>w. w \<noteq> [] \<Longrightarrow> is_punct (hd w) \<Longrightarrow> match_pattern (Literal w) prev (c # s2) = None"
    using assms literal_no_match unfolding unmatched_char_def by metis
  show ?thesis
    unfolding match_here_def TOKENS_def first_match.simps k
    by (simp add: l d is_punct_def del: match_pattern.simps(2))
qed

text \<open>Where the scan finds no match, no alternative matches.\<close>

lemma first_match_none:
  assumes "first_match alts prev s = None" and "(k, p) \<in> set alts"
  shows "match_pattern p prev s = None"
  using assms by (induction alts) (auto split: option.splits)

lemma skipped_char:
  assumes "match_here prev (c # r) = None"
  shows "\<not> is_space c" and "c \<noteq> CHR ''=''"
proof -
  have "(WHITESPACE, Spaces) \<in> set TOKENS" "(ASSIGN, Literal ''='') \<in> set TOKENS"
    by (simp_all add: TOKENS_def)
  with assms have "match_pattern Spaces prev (c # r) = None"
    and "match_pattern (Literal ''='') prev (c # r) = None"
    unfolding match_here_def by (blast intro: first_match_none)+
  then show "\<not> is_space c" and "c \<noteq> CHR ''=''"
    by (auto simp: Let_def split: if_splits)
qed

text \<open>The character before a position matters to the lexer only as a word character or not.\<close>

lemma match_pattern_prev:
  assumes "word_side prev = word_side prev'"
  shows "match_pattern p prev s = match_pattern p prev' s"
proof (cases p)
  case (Keyword w)
  have "char_before_end prev w = char_before_end prev' w \<or> w = []"
    by (simp add: char_before_end_def)
  with assms Keyword show ?thesis
    by (auto simp: at_boundary_def char_before_end_def)
qed simp_all

lemma match_here_prev:
  assumes "word_side prev = word_side prev'"
  shows "match_here prev s = match_here prev' s"
proof -
  have "first_match alts prev s = first_match alts prev' s" for alts
    by (induction alts)
      (auto simp: match_pattern_prev [OF assms] simp del: match_pattern.simps split: option.splits)
  then show ?thesis by (simp add: match_here_def)
qed

lemma lex_from_prev:
  assumes "word_side prev = word_side prev'"
  shows "lex_from prev s = lex_from prev' s"
  by (cases s) (simp_all add: match_here_prev [OF assms])

text \<open>At a character that is not a word character it does not matter at all.\<close>

lemma match_pattern_nonword:
  assumes "\<not> is_word c" and "\<forall>w. p = Keyword w \<longrightarrow> w \<noteq> [] \<and> is_word (hd w)"
  shows "match_pattern p prev (c # r) = match_pattern p prev' (c # r)"
proof (cases p)
  case (Keyword w)
  with assms obtain a as where "w = a # as" "c \<noteq> a" by (cases w) auto
  with Keyword show ?thesis by simp
qed simp_all

lemma first_match_nonword:
  assumes "\<not> is_word c"
    and "\<forall>(k, p) \<in> set alts. \<forall>w. p = Keyword w \<longrightarrow> w \<noteq> [] \<and> is_word (hd w)"
  shows "first_match alts prev (c # r) = first_match alts prev' (c # r)"
  using assms(2)
proof (induction alts)
  case Nil
  show ?case by simp
next
  case (Cons a alts)
  obtain k p where a: "a = (k, p)" by (cases a)
  with Cons.prems have "\<forall>w. p = Keyword w \<longrightarrow> w \<noteq> [] \<and> is_word (hd w)" by simp
  from match_pattern_nonword [OF assms(1) this, of prev r prev'] Cons a show ?case
    by (simp del: match_pattern.simps split: option.splits)
qed

lemma match_here_nonword:
  assumes "\<not> is_word c"
  shows "match_here prev (c # r) = match_here prev' (c # r)"
proof -
  have "is_word (CHR ''i'')" "is_word (CHR ''e'')" using word_if by simp_all
  then have "\<forall>(k, p) \<in> set TOKENS. \<forall>w. p = Keyword w \<longrightarrow> w \<noteq> [] \<and> is_word (hd w)"
    unfolding TOKENS_def by (intro ballI) auto
  with assms show ?thesis unfolding match_here_def by (rule first_match_nonword)
qed

lemma take_drop_prefix:
  assumes "n \<le> length xs"
  shows "take n (xs @ ys) = take n xs \<and> drop n (xs @ ys) = drop n xs @ ys"
  using assms by simp

text \<open>
  A character that is not a word character and that starts no match cuts the text in two
  for the lexer.
\<close>

lemma lex_from_stop:
  assumes "\<not> is_word c" and "match_here p0 (c # s2) = None"
  shows "lex_from prev (s @ c # s2) = lex_from prev s @ lex_from None s2"
proof (induction prev s rule: lex_from.induct)
  case (1 prev)
  have "word_side (Some c) = word_side None"
    using assms(1) by (simp add: word_side_def)
  then have "lex_from (Some c) s2 = lex_from None s2" by (rule lex_from_prev)
  moreover have "match_here prev (c # s2) = None"
    using match_here_nonword [OF assms(1), of prev s2 p0] assms(2) by simp
  ultimately show ?case by simp
next
  case (2 prev a as)
  have m: "match_here prev ((a # as) @ c # s2) = match_here prev (a # as)"
    using assms(1) skipped_char [OF assms(2)] by (intro match_here_stop) simp_all
  show ?case
  proof (cases "match_here prev (a # as)")
    case None
    with m "2.IH"(1) show ?thesis by simp
  next
    case (Some kn)
    obtain k n where kn: "kn = (k, n)" by (cases kn)
    from Some kn match_here_bounds have n: "0 < n" "n \<le> length (a # as)" by blast+
    then have t: "take n ((a # as) @ c # s2) = take n (a # as)"
      and d: "drop n ((a # as) @ c # s2) = drop n (a # as) @ c # s2"
      using take_drop_prefix [of n "a # as" "c # s2"] by blast+
    from "2.IH"(2) [OF Some kn [symmetric] refl]
    have "lex_from (Some (last (take n (a # as)))) (drop n (a # as) @ c # s2)
        = lex_from (Some (last (take n (a # as)))) (drop n (a # as)) @ lex_from None s2" .
    with m Some kn t d show ?thesis
      by (simp del: take_Suc_Cons drop_Suc_Cons add: Let_def)
  qed
qed

lemma lex_from_length: "length (lex_from prev s) \<le> length s"
proof (induction prev s rule: lex_from.induct)
  case (1 prev)
  show ?case by simp
next
  case (2 prev c cs)
  show ?case
  proof (cases "match_here prev (c # cs)")
    case None
    with "2.IH"(1) show ?thesis by simp
  next
    case (Some kn)
    obtain k n where kn: "kn = (k, n)" by (cases kn)
    from Some kn match_here_bounds have n: "0 < n" "n \<le> length (c # cs)" by blast+
    from "2.IH"(2) [OF Some kn [symmetric] refl]
    have "length (lex_from (Some (last (take n (c # cs)))) (drop n (c # cs)))
        \<le> length (drop n (c # cs))" .
    with n Some kn show ?thesis
      by (auto simp del: take_Suc_Cons drop_Suc_Cons simp add: Let_def)
  qed
qed

text \<open>
  C9, as the code has it.  The lexer is a total function into token lists: it has no
  error result, and it returns at most one token per character.  Where the scan finds no
  match at a character it adds no token and goes on behind it, with that character as
  the one before the next position.  When such a character is not a word character, the
  text around it gives the tokens it gives on its own: those of the text before followed
  by those of the text after.  The characters that are neither word characters nor white
  space nor among \<open>+-*/(){};=!<>\<close>, such as \<open>@\<close> and \<open>#\<close>, are of that kind wherever
  they stand.
\<close>

theorem lexer_total_skips_nonword:
  "length (lex_tokens code) \<le> length code
   \<and> (match_here prev (c # rest) = None \<longrightarrow> lex_from prev (c # rest) = lex_from (Some c) rest)
   \<and> (\<not> is_word c \<and> match_here prev (c # s2) = None \<longrightarrow>
        lex_tokens (s1 @ c # s2) = lex_tokens s1 @ lex_tokens s2)
   \<and> (unmatched_char c \<longrightarrow> \<not> is_word c \<and> match_here prev (c # rest) = None)
   \<and> unmatched_char (CHR ''@'') \<and> unmatched_char (CHR ''#'')"
proof -
  have "unmatched_char (CHR ''@'')" "unmatched_char (CHR ''#'')"
    by code_simp+
  moreover have "lex_tokens (s1 @ c # s2) = lex_tokens s1 @ lex_tokens s2"
    if "\<not> is_word c" and "match_here prev (c # s2) = None"
    using lex_from_stop [OF that, of None s1] by (simp add: lex_tokens_def)
  moreover have "\<not> is_word c" if "unmatched_char c"
    using that by (simp add: unmatched_char_def)
  ultimately show ?thesis
    using lex_from_length [of None code] match_here_unmatched [of c prev rest]
    by (simp add: lex_tokens_def)
qed

theorem lexer_total_skips_nonword_witness:
  "match_here None ''@b'' = None
   \<and> lex_from None ''@b'' = lex_from (Some (CHR ''@'')) ''b''
   \<and> unmatched_char (CHR ''@'')
   \<and> \<not> is_word (CHR ''!'') \<and> match_here (Some (CHR '' '')) ''! 2;'' = None
   \<and> lex_tokens ''x = 1 ! 2;'' = lex_tokens ''x = 1 '' @ lex_tokens '' 2;''
   \<and> lex_tokens ''x = 1 ! 2;''
       = [(IDENTIFIER, ''x''), (ASSIGN, ''=''), (NUMBER, ''1''), (NUMBER, ''2''), (SEMICOLON, '';'')]"
proof -
  have u: "unmatched_char (CHR ''@'')" "\<not> is_word (CHR ''!'')"
    "match_here (Some (CHR '' '')) ''! 2;'' = None"
    by code_simp+
  have v: "lex_tokens ''x = 1 '' = [(IDENTIFIER, ''x''), (ASSIGN, ''=''), (NUMBER, ''1'')]"
    "lex_tokens '' 2;'' = [(NUMBER, ''2''), (SEMICOLON, '';'')]"
    by code_simp+
  from lexer_total_skips_nonword [of "''x''" None "CHR ''@''" "''b''" "'' 2;''" "''x = 1 ''"]
    lexer_total_skips_nonword [of "''x''" "Some (CHR '' '')" "CHR ''!''" "''b''" "'' 2;''" "''x = 1 ''"]
  show ?thesis using u v by simp
qed

text \<open>
  The claim C9 as stated fails on a skipped word character.  At the letter with
  code point 233 (e with an acute accent), a word character that starts no identifier, no
  pattern matches, and the \<open>if\<close> behind it is no longer the keyword: the lexer gives it
  as an \<open>IDENTIFIER\<close>.
\<close>

theorem skipped_word_character_changes_tokens:
  "is_word (CHR 0xE9)
   \<and> match_here None (CHR 0xE9 # ''if'') = None
   \<and> lex_tokens (CHR 0xE9 # ''if'') = [(IDENTIFIER, ''if'')]
   \<and> lex_tokens ''if'' = [(IF, ''if'')]
   \<and> lex_tokens ([] @ CHR 0xE9 # ''if'') \<noteq> lex_tokens [] @ lex_tokens ''if''"
  by code_simp

text \<open>
  C10.  A name that starts with \<open>if\<close> or \<open>else\<close> and goes on with at least one word
  character is lexed as one \<open>IDENTIFIER\<close> token whose text is the whole name, alone and
  in front of any text that does not continue the name.
\<close>

theorem keyword_prefix_is_identifier:
  assumes "kw = ''if'' \<or> kw = ''else''" and "ending \<noteq> []" and "list_all is_word ending"
  shows "lex_tokens (kw @ ending) = [(IDENTIFIER, kw @ ending)]
       \<and> (rest = [] \<or> \<not> is_word (hd rest) \<longrightarrow>
            lex_from prev (kw @ ending @ rest)
              = (IDENTIFIER, kw @ ending) # lex_from (Some (last ending)) rest)"
proof -
  from assms have i: "is_identifier (kw @ ending)"
    by (auto simp: is_identifier_def is_ident_start_def in_ranges_def code_point_def
        is_word_def [of "CHR ''f''"] is_word_def [of "CHR ''l''"] is_word_def [of "CHR ''s''"]
        is_word_def [of "CHR ''e''"])
  from assms(1,2) have n: "kw @ ending \<noteq> ''if''" "kw @ ending \<noteq> ''else''" by auto
  have "lex_from p (kw @ ending @ r) = (IDENTIFIER, kw @ ending) # lex_from (Some (last ending)) r"
    if "r = [] \<or> \<not> is_word (hd r)" for p r
    using lex_identifier [OF i n that, of p] assms(2) by simp
  from this [of "[]" None] this [of rest prev] show ?thesis
    by (simp add: lex_tokens_def)
qed

theorem keyword_prefix_is_identifier_witness:
  "(''if'' = ''if'' \<or> ''if'' = ''else'') \<and> ''y'' \<noteq> [] \<and> list_all is_word ''y''
   \<and> lex_tokens ''ify'' = [(IDENTIFIER, ''ify'')]
   \<and> (''else'' = ''if'' \<or> ''else'' = ''else'') \<and> ''where'' \<noteq> [] \<and> list_all is_word ''where''
   \<and> lex_tokens ''elsewhere'' = [(IDENTIFIER, ''elsewhere'')]"
proof -
  have h: "list_all is_word ''y''" "list_all is_word ''where''" by code_simp+
  from keyword_prefix_is_identifier [of "''if''" "''y''", OF _ _ h(1)]
    keyword_prefix_is_identifier [of "''else''" "''where''", OF _ _ h(2)]
  show ?thesis using h by simp
qed


section \<open>Expressions through the pipeline\<close>

subsection \<open>Decimal conversions\<close>

lemma digit_char_props:
  assumes "d < 10"
  shows "is_digit (digit_char d)" and "digit_value (digit_char d) = int d"
proof -
  from assms have "code_point (digit_char d) = 48 + d"
    by (simp add: code_point_def digit_char_def)
  then show "is_digit (digit_char d)" and "digit_value (digit_char d) = int d"
    using assms by (simp_all add: is_digit_def in_ranges_def digit_value_def)
qed

lemma digits_of_number: "is_number (digits_of n)"
proof (induction n rule: digits_of.induct)
  case (1 n)
  show ?case
  proof (cases "n < 10")
    case True
    then show ?thesis
      by (simp add: digits_of.simps [of n] is_number_def digit_char_props)
  next
    case False
    with 1 have "is_number (digits_of (n div 10))" by simp
    moreover have "is_digit (digit_char (n mod 10))" by (simp add: digit_char_props)
    ultimately show ?thesis using False
      by (simp add: digits_of.simps [of n] is_number_def)
  qed
qed

definition decimal_value :: "string \<Rightarrow> int" where
  "decimal_value s = foldl (\<lambda>acc c. 10 * acc + digit_value c) 0 s"

lemma py_int_number:
  assumes "is_number s" and "length s \<le> int_max_str_digits"
  shows "py_int s = Inr (decimal_value s)"
  using assms by (simp add: py_int_def is_number_def decimal_value_def)

lemma py_int_over_limit:
  assumes "is_number s" and "int_max_str_digits < length s"
  shows "py_int s = Inl (int_limit_error (length s))"
  using assms by (simp add: py_int_def is_number_def)

lemma digit_value_range:
  assumes "is_digit c"
  shows "0 \<le> digit_value c \<and> digit_value c \<le> 9"
  using assms by (simp add: is_digit_def in_ranges_def digit_value_def)

lemma decimal_fold_bounds:
  assumes "0 \<le> a" and "list_all is_digit s"
  shows "0 \<le> foldl (\<lambda>acc c. 10 * acc + digit_value c) a s
       \<and> foldl (\<lambda>acc c. 10 * acc + digit_value c) a s < (a + 1) * 10 ^ length s"
  using assms
proof (induction s arbitrary: a)
  case Nil
  then show ?case by simp
next
  case (Cons c s)
  from Cons.prems digit_value_range [of c]
  have d: "0 \<le> digit_value c" "digit_value c \<le> 9" by simp_all
  with Cons.prems have a: "0 \<le> 10 * a + digit_value c" by simp
  from Cons.IH [OF a] Cons.prems
  have 1: "0 \<le> foldl (\<lambda>acc c. 10 * acc + digit_value c) (10 * a + digit_value c) s"
    and 2: "foldl (\<lambda>acc c. 10 * acc + digit_value c) (10 * a + digit_value c) s
        < (10 * a + digit_value c + 1) * 10 ^ length s"
    by simp_all
  from d have "10 * a + digit_value c + 1 \<le> 10 * (a + 1)" by simp
  then have "(10 * a + digit_value c + 1) * 10 ^ length s \<le> (10 * (a + 1)) * 10 ^ length s"
    by (rule mult_right_mono) simp
  moreover have "(10 * (a + 1)) * 10 ^ length s = (a + 1) * 10 ^ length (c # s)"
    by simp
  ultimately have "foldl (\<lambda>acc c. 10 * acc + digit_value c) (10 * a + digit_value c) s
      < (a + 1) * 10 ^ length (c # s)"
    using 2 by (simp only:)
  with 1 show ?case by simp
qed

lemma decimal_value_bounds:
  assumes "is_number s"
  shows "0 \<le> decimal_value s" and "decimal_value s < 10 ^ length s"
  using decimal_fold_bounds [of 0 s] assms
  by (simp_all add: decimal_value_def is_number_def)

lemma decimal_value_digits_of: "decimal_value (digits_of n) = int n"
proof (induction n rule: digits_of.induct)
  case (1 n)
  show ?case
  proof (cases "n < 10")
    case True
    then show ?thesis
      by (simp add: digits_of.simps [of n] decimal_value_def digit_char_props)
  next
    case False
    with 1 have "decimal_value (digits_of (n div 10)) = int (n div 10)" by simp
    moreover have "10 * int (n div 10) + int (n mod 10) = int n"
      by (simp add: zdiv_int zmod_int)
    ultimately show ?thesis using False
      by (simp add: digits_of.simps [of n] decimal_value_def digit_char_props)
  qed
qed

lemma digits_of_length:
  assumes "n < 10 ^ k" and "0 < k"
  shows "length (digits_of n) \<le> k"
  using assms
proof (induction n arbitrary: k rule: digits_of.induct)
  case (1 n)
  show ?case
  proof (cases "n < 10")
    case True
    with "1.prems" show ?thesis by (simp add: digits_of.simps [of n])
  next
    case False
    from "1.prems" obtain j where k: "k = Suc j" by (cases k) auto
    with "1.prems" False have "0 < j" by (cases j) auto
    moreover from "1.prems" k have "n div 10 < 10 ^ j"
      by (simp add: less_mult_imp_div_less mult.commute)
    ultimately have "length (digits_of (n div 10)) \<le> j"
      using "1.IH" False by simp
    with False k show ?thesis by (simp add: digits_of.simps [of n])
  qed
qed

text \<open>The decimal form of the value of a literal is not longer than the literal.\<close>

lemma canonical_length:
  assumes "is_number s"
  shows "length (digits_of (nat (decimal_value s))) \<le> length s"
proof -
  from decimal_value_bounds [OF assms] have "nat (decimal_value s) < 10 ^ length s"
    by (simp add: nat_less_iff)
  moreover from assms have "0 < length s" by (simp add: is_number_def)
  ultimately show ?thesis by (rule digits_of_length)
qed

lemma py_str_nonneg:
  assumes "0 \<le> v" and "length (digits_of (nat v)) \<le> int_max_str_digits"
  shows "py_str v = Inr (digits_of (nat v))"
  using assms by (simp add: py_str_def Let_def)

lemma py_str_result:
  assumes "py_str v = Inr s" and "0 \<le> v"
  shows "s = digits_of (nat v)" and "length s \<le> int_max_str_digits"
  using assms by (auto simp: py_str_def Let_def split: if_splits)

lemma py_int_digits_of:
  assumes "length (digits_of n) \<le> int_max_str_digits"
  shows "py_int (digits_of n) = Inr (int n)"
  using py_int_number [OF digits_of_number assms] by (simp add: decimal_value_digits_of)

subsection \<open>Binary expressions of two literals\<close>

text \<open>The operator tokens that the lexer delivers, with their texts.\<close>

definition operator_tokens :: "token list" where
  "operator_tokens =
     [(PLUS, ''+''), (MINUS, ''-''), (MULTIPLY, ''*''), (DIVIDE, ''/''),
      (EQ, ''==''), (NEQ, ''!=''), (LT, ''<''), (GT, ''>'')]"

lemma operator_cases:
  assumes "(k, op) \<in> set operator_tokens"
  obtains "k = PLUS" "op = ''+''" | "k = MINUS" "op = ''-''" | "k = MULTIPLY" "op = ''*''"
    | "k = DIVIDE" "op = ''/''" | "k = EQ" "op = ''==''" | "k = NEQ" "op = ''!=''"
    | "k = LT" "op = ''<''" | "k = GT" "op = ''>''"
  using assms by (auto simp: operator_tokens_def)

lemma lex_blank_operator:
  assumes "(k, op) \<in> set operator_tokens"
  shows "lex_from p (CHR '' '' # op @ CHR '' '' # r)
    = (k, op) # lex_from (Some (last op)) (CHR '' '' # r)"
  using assms
  by (cases rule: operator_cases) (simp_all add: match_here_def TOKENS_def class_facts)

lemma lex_binary:
  assumes "(k, op) \<in> set operator_tokens" and "is_number a" and "is_number b"
    and "rest = [] \<or> \<not> is_digit (hd rest)"
  shows "lex_from prev (a @ CHR '' '' # op @ CHR '' '' # b @ rest)
    = (NUMBER, a) # (k, op) # (NUMBER, b) # lex_from (Some (last b)) rest"
proof -
  from assms(3) obtain d ds where b: "b = d # ds" "is_digit d"
    by (cases b) (auto simp: is_number_def)
  then have nsb: "\<not> is_space d" using is_word_digit not_space_word by blast
  have "lex_from prev (a @ CHR '' '' # op @ CHR '' '' # b @ rest)
      = (NUMBER, a) # lex_from (Some (last a)) (CHR '' '' # op @ CHR '' '' # b @ rest)"
    using lex_number [OF assms(2), of "CHR '' '' # op @ CHR '' '' # b @ rest" prev]
    by (simp add: class_facts)
  also have "lex_from (Some (last a)) (CHR '' '' # op @ CHR '' '' # b @ rest)
      = (k, op) # lex_from (Some (last op)) (CHR '' '' # b @ rest)"
    using assms(1) by (rule lex_blank_operator)
  also have "lex_from (Some (last op)) (CHR '' '' # b @ rest)
      = lex_from (Some (CHR '' '')) (b @ rest)"
    using lex_blank [of "b @ rest" "Some (last op)"] b nsb by simp
  also have "lex_from (Some (CHR '' '')) (b @ rest) = (NUMBER, b) # lex_from (Some (last b)) rest"
    using assms(3,4) by (rule lex_number)
  finally show ?thesis .
qed

lemma lex_binary_statement:
  assumes "(k, op) \<in> set operator_tokens" and "is_number a" and "is_number b"
  shows "lex_tokens (a @ '' '' @ op @ '' '' @ b @ '';'')
    = [(NUMBER, a), (k, op), (NUMBER, b), (SEMICOLON, '';'')]"
  using lex_binary [OF assms, of "'';''" None] lex_punctuation(3) [of "Some (last b)" "[]"]
  by (simp add: lex_tokens_def class_facts del: lex_from.simps(2))

lemma operator_kind:
  assumes "(k, op) \<in> set operator_tokens"
  shows "k \<in> additive_kinds \<or> k \<in> multiplicative_kinds"
  using assms by (cases rule: operator_cases) (simp_all add: additive_kinds_def multiplicative_kinds_def)

lemma parse_binary:
  assumes "k \<in> additive_kinds \<or> k \<in> multiplicative_kinds"
    and "py_int a = Inr va" and "py_int b = Inr vb"
  shows "parse (Parser [(NUMBER, a), (k, op), (NUMBER, b), (SEMICOLON, s)])
    = Inr (Block [BinOp (Number va) op (Number vb)])"
  using assms unfolding additive_kinds_def multiplicative_kinds_def
  by (auto simp: parser_unfold)

lemma parse_binary_left_error:
  assumes "py_int a = Inl e"
  shows "parse (Parser ((NUMBER, a) # rest)) = Inl e"
  using assms by (simp add: parser_unfold)

lemma parse_binary_right_error:
  assumes "k \<in> additive_kinds \<or> k \<in> multiplicative_kinds"
    and "py_int a = Inr va" and "py_int b = Inl e"
  shows "parse (Parser ((NUMBER, a) # (k, op) # (NUMBER, b) # rest)) = Inl e"
  using assms unfolding additive_kinds_def multiplicative_kinds_def
  by (auto simp: parser_unfold)

text \<open>
  C1, as the code has it.  Take an operator that the lexer delivers as one token
  (\<open>+ - * / == != < >\<close>) and integer literals \<open>a\<close> and \<open>b\<close> (non-empty runs of decimal
  digits).  When neither literal has more than 4300 digits, the pipeline on \<open>a op b;\<close>
  succeeds and returns \<open>(a' op b')\<close>, where \<open>a'\<close> and \<open>b'\<close> are the decimal forms of the
  values of \<open>a\<close> and \<open>b\<close>; for literals that are such decimal forms already that is
  \<open>(a op b)\<close>.  When a literal has more than 4300 digits, the pipeline fails with the
  \<open>ValueError\<close> of \<open>int\<close> for the first such literal.
\<close>

theorem binary_expression_pipeline:
  assumes "(k, op) \<in> set operator_tokens" and "is_number a" and "is_number b"
  shows "(length a \<le> int_max_str_digits \<and> length b \<le> int_max_str_digits \<longrightarrow>
            compile_code (a @ '' '' @ op @ '' '' @ b @ '';'')
              = Inr (''('' @ digits_of (nat (decimal_value a)) @ '' '' @ op @ '' ''
                     @ digits_of (nat (decimal_value b)) @ '')''))
       \<and> (length a \<le> int_max_str_digits \<and> length b \<le> int_max_str_digits
            \<and> a = digits_of m \<and> b = digits_of n \<longrightarrow>
            compile_code (a @ '' '' @ op @ '' '' @ b @ '';'')
              = Inr (''('' @ a @ '' '' @ op @ '' '' @ b @ '')''))
       \<and> (int_max_str_digits < length a \<longrightarrow>
            compile_code (a @ '' '' @ op @ '' '' @ b @ '';'')
              = Inl (int_limit_error (length a)))
       \<and> (length a \<le> int_max_str_digits \<and> int_max_str_digits < length b \<longrightarrow>
            compile_code (a @ '' '' @ op @ '' '' @ b @ '';'')
              = Inl (int_limit_error (length b)))"
proof -
  have toks: "lex_tokens (a @ CHR '' '' # op @ CHR '' '' # b @ '';'')
      = [(NUMBER, a), (k, op), (NUMBER, b), (SEMICOLON, '';'')]"
    using lex_binary_statement [OF assms] by simp
  note kind = operator_kind [OF assms(1)]
  have ok: "compile_code (a @ '' '' @ op @ '' '' @ b @ '';'')
      = Inr (''('' @ digits_of (nat (decimal_value a)) @ '' '' @ op @ '' ''
             @ digits_of (nat (decimal_value b)) @ '')'')"
    if la: "length a \<le> int_max_str_digits" and lb: "length b \<le> int_max_str_digits"
  proof -
    have "parse (Parser [(NUMBER, a), (k, op), (NUMBER, b), (SEMICOLON, '';'')])
        = Inr (Block [BinOp (Number (decimal_value a)) op (Number (decimal_value b))])"
      using kind py_int_number [OF assms(2) la] py_int_number [OF assms(3) lb]
      by (rule parse_binary)
    moreover have "py_str (decimal_value a) = Inr (digits_of (nat (decimal_value a)))"
      using decimal_value_bounds(1) [OF assms(2)] canonical_length [OF assms(2)] la
      by (intro py_str_nonneg) simp_all
    moreover have "py_str (decimal_value b) = Inr (digits_of (nat (decimal_value b)))"
      using decimal_value_bounds(1) [OF assms(3)] canonical_length [OF assms(3)] lb
      by (intro py_str_nonneg) simp_all
    ultimately show ?thesis
      by (simp add: compile_code_def toks)
  qed
  have left: "compile_code (a @ '' '' @ op @ '' '' @ b @ '';'') = Inl (int_limit_error (length a))"
    if "int_max_str_digits < length a"
    using parse_binary_left_error [OF py_int_over_limit [OF assms(2) that]]
    by (simp add: compile_code_def toks)
  have right: "compile_code (a @ '' '' @ op @ '' '' @ b @ '';'') = Inl (int_limit_error (length b))"
    if la: "length a \<le> int_max_str_digits" and lb: "int_max_str_digits < length b"
    using parse_binary_right_error [OF kind py_int_number [OF assms(2) la]
        py_int_over_limit [OF assms(3) lb]]
    by (simp add: compile_code_def toks)
  from ok left right show ?thesis
    by (auto simp: decimal_value_digits_of)
qed

lemma is_number_replicate:
  assumes "is_digit c" and "0 < n"
  shows "is_number (replicate n c)"
  using assms by (simp add: is_number_def list_all_iff)

theorem binary_expression_pipeline_witness:
  "(NEQ, ''!='') \<in> set operator_tokens
   \<and> is_number ''007'' \<and> is_number ''12''
   \<and> length ''007'' \<le> int_max_str_digits \<and> length ''12'' \<le> int_max_str_digits
   \<and> ''12'' = digits_of 12
   \<and> compile_code ''007 != 12;'' = Inr ''(7 != 12)''
   \<and> compile_code ''12 != 12;'' = Inr ''(12 != 12)''
   \<and> is_number (replicate 4301 (CHR ''9''))
   \<and> int_max_str_digits < length (replicate 4301 (CHR ''9''))
   \<and> compile_code (replicate 4301 (CHR ''9'') @ '' != 12;'') = Inl (int_limit_error 4301)
   \<and> compile_code (''12 != '' @ replicate 4301 (CHR ''9'') @ '';'') = Inl (int_limit_error 4301)"
proof -
  have h: "(NEQ, ''!='') \<in> set operator_tokens" "is_number ''007''" "is_number ''12''"
    and l: "length ''007'' \<le> int_max_str_digits" "length ''12'' \<le> int_max_str_digits"
    and d: "digits_of (nat (decimal_value ''007'')) = ''7''"
      "digits_of (nat (decimal_value ''12'')) = ''12''"
    and e: "''12'' = digits_of 12"
    and nine: "is_digit (CHR ''9'')"
    by code_simp+
  from nine have n: "is_number (replicate 4301 (CHR ''9''))"
    by (rule is_number_replicate) simp
  have g: "int_max_str_digits < length (replicate 4301 (CHR ''9''))"
    by (simp add: int_max_str_digits_def)
  from binary_expression_pipeline [OF h(1,2,3), of 0 0] l d
  have 1: "compile_code ''007 != 12;'' = Inr ''(7 != 12)''" by simp
  from binary_expression_pipeline [OF h(1,3,3), of 12 12] l(2) e
  have "compile_code (''12'' @ '' '' @ ''!='' @ '' '' @ ''12'' @ '';'')
      = Inr (''('' @ ''12'' @ '' '' @ ''!='' @ '' '' @ ''12'' @ '')'')"
    by blast
  then have 2: "compile_code ''12 != 12;'' = Inr ''(12 != 12)''" by simp
  from binary_expression_pipeline [OF h(1) n h(3), of 0 0] g
  have "compile_code (replicate 4301 (CHR ''9'') @ '' '' @ ''!='' @ '' '' @ ''12'' @ '';'')
      = Inl (int_limit_error (length (replicate 4301 (CHR ''9''))))"
    by blast
  then have 3: "compile_code (replicate 4301 (CHR ''9'') @ '' != 12;'')
      = Inl (int_limit_error 4301)"
    by (simp only: length_replicate append.simps)
  from binary_expression_pipeline [OF h(1) h(3) n, of 0 0] l(2) g
  have "compile_code (''12'' @ '' '' @ ''!='' @ '' '' @ replicate 4301 (CHR ''9'') @ '';'')
      = Inl (int_limit_error (length (replicate 4301 (CHR ''9''))))"
    by blast
  then have 4: "compile_code (''12 != '' @ replicate 4301 (CHR ''9'') @ '';'')
      = Inl (int_limit_error 4301)"
    by (simp only: length_replicate append.simps)
  from h l e n g 1 2 3 4 show ?thesis by blast
qed

lemma binary_over_limit:
  assumes "(k, op) \<in> set operator_tokens" and "is_number a" and "is_number b"
    and "int_max_str_digits < length a"
  shows "compile_code (a @ '' '' @ op @ '' '' @ b @ '';'') = Inl (int_limit_error (length a))"
proof -
  have "lex_tokens (a @ CHR '' '' # op @ CHR '' '' # b @ '';'')
      = [(NUMBER, a), (k, op), (NUMBER, b), (SEMICOLON, '';'')]"
    using lex_binary_statement [OF assms(1,2,3)] by simp
  then show ?thesis
    using parse_binary_left_error [OF py_int_over_limit [OF assms(2,4)]]
    by (simp add: compile_code_def)
qed

text \<open>
  The claim C1 as stated fails in three ways.  The text \<open>1 <= 2;\<close> is not accepted: the
  lexer gives \<open><\<close> and \<open>=\<close> as two tokens, and \<open>factor\<close> refuses the second.  A literal
  with leading zeros is not returned as written: \<open>007 + 1;\<close> gives \<open>(7 + 1)\<close>.  A literal
  of 4301 digits is refused by \<open>int\<close>.
\<close>

theorem binary_expression_counterexample:
  "lex_tokens ''1 <= 2;''
     = [(NUMBER, ''1''), (LT, ''<''), (ASSIGN, ''=''), (NUMBER, ''2''), (SEMICOLON, '';'')]
   \<and> compile_code ''1 <= 2;'' = Inl (unexpected_token ''='')
   \<and> compile_code ''1 <= 2;'' \<noteq> Inr ''(1 <= 2)''
   \<and> compile_code ''007 + 1;'' = Inr ''(7 + 1)''
   \<and> compile_code ''007 + 1;'' \<noteq> Inr ''(007 + 1)''
   \<and> compile_code (replicate 4301 (CHR ''0'') @ '' '' @ ''+'' @ '' '' @ ''1'' @ '';'')
       = Inl (int_limit_error 4301)"
proof -
  have "lex_tokens ''1 <= 2;''
     = [(NUMBER, ''1''), (LT, ''<''), (ASSIGN, ''=''), (NUMBER, ''2''), (SEMICOLON, '';'')]
   \<and> compile_code ''1 <= 2;'' = Inl (unexpected_token ''='')
   \<and> compile_code ''1 <= 2;'' \<noteq> Inr ''(1 <= 2)''
   \<and> compile_code ''007 + 1;'' = Inr ''(7 + 1)''
   \<and> compile_code ''007 + 1;'' \<noteq> Inr ''(007 + 1)''"
    by code_simp
  moreover have "(PLUS, ''+'') \<in> set operator_tokens" "is_digit (CHR ''0'')" "is_number ''1''"
    by code_simp+
  then have "compile_code (replicate 4301 (CHR ''0'') @ '' '' @ ''+'' @ '' '' @ ''1'' @ '';'')
      = Inl (int_limit_error (length (replicate 4301 (CHR ''0''))))"
    by (intro binary_over_limit is_number_replicate) (simp_all add: int_max_str_digits_def)
  then have "compile_code (replicate 4301 (CHR ''0'') @ '' '' @ ''+'' @ '' '' @ ''1'' @ '';'')
      = Inl (int_limit_error 4301)"
    by (simp only: length_replicate)
  ultimately show ?thesis by blast
qed

subsection \<open>Expression trees and their tokens\<close>

text \<open>
  The expression trees that the parser builds from the tokens of the lexer, apart from
  identifiers with the text of a keyword: the operators are those of \<open>operator_tokens\<close>,
  the numbers are not negative and the names have the form of the pattern
  \<open>[a-zA-Z_]\w*\<close>.
\<close>

fun expression_tree :: "node \<Rightarrow> bool" where
  "expression_tree (Number v) = (0 \<le> v)"
| "expression_tree (Identifier name) = (is_identifier name \<and> name \<noteq> ''if'' \<and> name \<noteq> ''else'')"
| "expression_tree (BinOp l op r) =
     (op \<in> snd ` set operator_tokens \<and> expression_tree l \<and> expression_tree r)"
| "expression_tree (Assignment i v) = False"
| "expression_tree (IfStatement c t e) = False"
| "expression_tree (Block statements) = False"

definition operator_kind_of :: "string \<Rightarrow> token_kind" where
  "operator_kind_of op =
     (if op = ''+'' then PLUS else if op = ''-'' then MINUS else if op = ''*'' then MULTIPLY
      else if op = ''/'' then DIVIDE else if op = ''=='' then EQ else if op = ''!='' then NEQ
      else if op = ''<'' then LT else GT)"

fun tokens_of :: "node \<Rightarrow> token list" where
  "tokens_of (Number v) = [(NUMBER, digits_of (nat v))]"
| "tokens_of (Identifier name) = [(IDENTIFIER, name)]"
| "tokens_of (BinOp l op r) =
     (LPAREN, ''('') # tokens_of l @ (operator_kind_of op, op) # tokens_of r @ [(RPAREN, '')'')]"
| "tokens_of (Assignment i v) = []"
| "tokens_of (IfStatement c t e) = []"
| "tokens_of (Block statements) = []"

lemma operator_kind_of_token:
  assumes "op \<in> snd ` set operator_tokens"
  shows "(operator_kind_of op, op) \<in> set operator_tokens"
  using assms by (auto simp: operator_tokens_def operator_kind_of_def)

lemma lex_expression:
  assumes "expression_tree t" and "generate_code t = Inr s"
    and "rest = [] \<or> \<not> is_word (hd rest)"
  shows "lex_from prev (s @ rest) = tokens_of t @ lex_from (Some (last s)) rest
       \<and> s \<noteq> [] \<and> \<not> is_space (hd s)"
  using assms
proof (induction t arbitrary: s rest prev)
  case (Number v)
  then have s: "s = digits_of (nat v)" using py_str_result(1) [of v s] by simp
  have n: "is_number s" unfolding s by (rule digits_of_number)
  from Number.prems(3) have "rest = [] \<or> \<not> is_digit (hd rest)"
    using is_word_digit by blast
  from lex_number [OF n this, of prev] n show ?case
    using is_word_digit not_space_word
    by (cases s) (auto simp: is_number_def s [symmetric])
next
  case (Identifier name)
  then have s: "s = name" and i: "is_identifier name" "name \<noteq> ''if''" "name \<noteq> ''else''"
    by simp_all
  from lex_identifier [OF i Identifier.prems(3), of prev] i(1) show ?case
    using is_word_ident_start not_space_word
    by (cases name) (auto simp: s is_identifier_def)
next
  case (BinOp l op r)
  from BinOp.prems(1) have tl: "expression_tree l" and tr: "expression_tree r"
    and ko: "(operator_kind_of op, op) \<in> set operator_tokens"
    using operator_kind_of_token by simp_all
  from BinOp.prems(2) obtain sl sr where gl: "generate_code l = Inr sl"
    and gr: "generate_code r = Inr sr"
    and s: "s = CHR ''('' # sl @ CHR '' '' # op @ CHR '' '' # sr @ '')''"
    by (auto split: sum.splits)
  have nw: "\<not> is_word (CHR '' '')" "\<not> is_word (CHR '')'')" by (simp_all add: class_facts)
  have 1: "lex_from p (sl @ CHR '' '' # x) = tokens_of l @ lex_from (Some (last sl)) (CHR '' '' # x)"
    for p x
    using BinOp.IH(1) [OF tl gl, of "CHR '' '' # x" p] nw by simp
  have 2: "lex_from p (sr @ CHR '')'' # x) = tokens_of r @ lex_from (Some (last sr)) (CHR '')'' # x)"
    and sr: "sr \<noteq> []" "\<not> is_space (hd sr)" for p x
    using BinOp.IH(2) [OF tr gr, of "CHR '')'' # x" p] nw by simp_all
  have "lex_from prev (s @ rest)
      = (LPAREN, ''('') # lex_from (Some (CHR ''('')) (sl @ CHR '' '' # op @ CHR '' '' # sr @ CHR '')'' # rest)"
    unfolding s using lex_punctuation(1) [of prev] by simp
  also have "lex_from (Some (CHR ''('')) (sl @ CHR '' '' # op @ CHR '' '' # sr @ CHR '')'' # rest)
      = tokens_of l @ lex_from (Some (last sl)) (CHR '' '' # op @ CHR '' '' # sr @ CHR '')'' # rest)"
    by (rule 1)
  also have "lex_from (Some (last sl)) (CHR '' '' # op @ CHR '' '' # sr @ CHR '')'' # rest)
      = (operator_kind_of op, op) # lex_from (Some (last op)) (CHR '' '' # sr @ CHR '')'' # rest)"
    using ko by (rule lex_blank_operator)
  also have "lex_from (Some (last op)) (CHR '' '' # sr @ CHR '')'' # rest)
      = lex_from (Some (CHR '' '')) (sr @ CHR '')'' # rest)"
    using lex_blank [of "sr @ CHR '')'' # rest" "Some (last op)"] sr by simp
  also have "lex_from (Some (CHR '' '')) (sr @ CHR '')'' # rest)
      = tokens_of r @ lex_from (Some (last sr)) (CHR '')'' # rest)"
    by (rule 2)
  also have "lex_from (Some (last sr)) (CHR '')'' # rest)
      = (RPAREN, '')'') # lex_from (Some (CHR '')'')) rest"
    by (rule lex_punctuation(2))
  finally have "lex_from prev (s @ rest) = tokens_of (BinOp l op r) @ lex_from (Some (CHR '')'')) rest"
    by simp
  moreover have "last s = CHR '')''" "s \<noteq> []" "hd s = CHR ''(''" by (simp_all add: s)
  ultimately show ?case by (simp add: class_facts)
qed simp_all

subsection \<open>Parsing the tokens of an expression tree\<close>

lemma Parser_simps:
  "current_token (Parser []) = None"
  "current_token (Parser (t # ts)) = Some t"
  "next_token (Parser (t # ts)) = Parser ts"
  "tokens (Parser (t # ts)) = ts"
  by (simp_all add: Parser_def next_token_def split: list.splits)

lemma expect_Parser: "expect k (Parser ((k, x) # ts)) = Inr (Parser ts)"
  by (simp add: expect_def Parser_simps)

lemma loops_stop:
  assumes "k \<notin> additive_kinds" and "k \<notin> multiplicative_kinds"
  shows "term_loop res (Parser ((k, x) # ts)) = Inr (res, Parser ((k, x) # ts))"
    and "expr_loop res (Parser ((k, x) # ts)) = Inr (res, Parser ((k, x) # ts))"
  using assms
  by (simp_all add: term_loop.simps expr_loop.simps Parser_simps additive_kinds_def
      multiplicative_kinds_def)

lemma loops_end:
  "term_loop res (Parser []) = Inr (res, Parser [])"
  "expr_loop res (Parser []) = Inr (res, Parser [])"
  by (simp_all add: term_loop.simps expr_loop.simps Parser_simps)

lemma parse_operation:
  assumes "(k, op) \<in> set operator_tokens"
    and l: "\<And>rest. factor (Parser (tl_toks @ rest)) = Inr (l, Parser rest)"
    and r: "\<And>rest. factor (Parser (tr_toks @ rest)) = Inr (r, Parser rest)"
    and stop: "e \<notin> additive_kinds" "e \<notin> multiplicative_kinds"
  shows "expr (Parser (tl_toks @ (k, op) # tr_toks @ (e, x) # rest))
    = Inr (BinOp l op r, Parser ((e, x) # rest))"
proof -
  let ?P4 = "Parser ((e, x) # rest)"
  let ?P2 = "Parser ((k, op) # tr_toks @ (e, x) # rest)"
  have f1: "factor (Parser (tl_toks @ (k, op) # tr_toks @ (e, x) # rest)) = Inr (l, ?P2)"
    by (rule l)
  have f3: "factor (Parser (tr_toks @ (e, x) # rest)) = Inr (r, ?P4)"
    by (rule r)
  from operator_kind [OF assms(1)] show ?thesis
  proof
    assume a: "k \<in> additive_kinds"
    then have m: "k \<notin> {MULTIPLY, DIVIDE}" and a': "k \<in> {PLUS, MINUS, EQ, NEQ, LT, GT, LE, GE}"
      by (auto simp: additive_kinds_def)
    have "term_loop l ?P2 = Inr (l, ?P2)"
      using m by (simp add: term_loop.simps [of l ?P2] Parser_simps)
    moreover have "expr_loop l ?P2 = Inr (BinOp l op r, ?P4)"
      using a' f3 loops_stop [OF stop]
      by (simp add: expr_loop.simps [of l ?P2] Parser_simps term'.simps)
    ultimately show ?thesis
      by (simp add: expr.simps term'.simps f1)
  next
    assume "k \<in> multiplicative_kinds"
    then have m: "k \<in> {MULTIPLY, DIVIDE}" by (simp add: multiplicative_kinds_def)
    have "term_loop l ?P2 = Inr (BinOp l op r, ?P4)"
      using m f3 loops_stop [OF stop]
      by (simp add: term_loop.simps [of l ?P2] Parser_simps)
    then show ?thesis
      using loops_stop [OF stop]
      by (simp add: expr.simps term'.simps f1)
  qed
qed

lemma factor_expression:
  assumes "expression_tree t" and "generate_code t = Inr s"
  shows "factor (Parser (tokens_of t @ rest)) = Inr (t, Parser rest)"
  using assms
proof (induction t arbitrary: s rest)
  case (Number v)
  then have "0 \<le> v" and "py_str v = Inr s" by simp_all
  from py_str_result [OF this(2,1)] have "length (digits_of (nat v)) \<le> int_max_str_digits"
    by simp
  from py_int_digits_of [OF this] \<open>0 \<le> v\<close> have "py_int (digits_of (nat v)) = Inr v"
    by simp
  then show ?case
    by (simp add: factor.simps Parser_simps)
next
  case (Identifier name)
  show ?case by (simp add: factor.simps Parser_simps)
next
  case (BinOp l op r)
  from BinOp.prems(1) have tl: "expression_tree l" and tr: "expression_tree r"
    and ko: "(operator_kind_of op, op) \<in> set operator_tokens"
    using operator_kind_of_token by simp_all
  from BinOp.prems(2) obtain sl sr where gl: "generate_code l = Inr sl"
    and gr: "generate_code r = Inr sr"
    by (auto split: sum.splits)
  have "expr (Parser (tokens_of l @ (operator_kind_of op, op) # tokens_of r @ (RPAREN, '')'') # rest))
      = Inr (BinOp l op r, Parser ((RPAREN, '')'') # rest))"
    using ko BinOp.IH(1) [OF tl gl] BinOp.IH(2) [OF tr gr]
    by (rule parse_operation) (simp_all add: additive_kinds_def multiplicative_kinds_def)
  then show ?case
    by (simp add: factor.simps [of "Parser ((LPAREN, ''('') # _)"] Parser_simps expect_Parser)
qed simp_all

lemma tokens_of_first:
  assumes "expression_tree t"
  shows "\<exists>k x others. tokens_of t = (k, x) # others \<and> k \<noteq> IF
    \<and> (k = IDENTIFIER \<longrightarrow> others = [])"
  using assms by (cases t) auto

lemma statement_expression:
  assumes "expression_tree t" and "generate_code t = Inr s"
  shows "statement (Parser (tokens_of t @ (SEMICOLON, x) # rest)) = Inr (t, Parser rest)"
proof -
  let ?P = "Parser (tokens_of t @ (SEMICOLON, x) # rest)"
  have e: "expr ?P = Inr (t, Parser ((SEMICOLON, x) # rest))"
    using factor_expression [OF assms, of "(SEMICOLON, x) # rest"]
      loops_stop [of SEMICOLON t x rest]
    by (simp add: expr.simps term'.simps additive_kinds_def multiplicative_kinds_def)
  from tokens_of_first [OF assms(1)] obtain k y others
    where t: "tokens_of t = (k, y) # others" and k: "k \<noteq> IF"
      and i: "k = IDENTIFIER \<longrightarrow> others = []"
    by blast
  have c: "current_token ?P = Some (k, y)"
    by (simp add: t Parser_simps)
  have nl: "\<not> lookahead ASSIGN ?P" if "k = IDENTIFIER"
    using i that by (simp add: t lookahead_def Parser_simps)
  show ?thesis
    by (cases "k = IDENTIFIER") (simp_all add: statement.simps [of ?P] c k nl e expect_Parser)
qed

lemma statement_unterminated:
  assumes "expression_tree t" and "generate_code t = Inr s"
  shows "statement (Parser (tokens_of t)) = Inl (expected_error SEMICOLON ''EOF'')"
proof -
  let ?P = "Parser (tokens_of t)"
  have e: "expr ?P = Inr (t, Parser [])"
    using factor_expression [OF assms, of "[]"] loops_end
    by (simp add: expr.simps term'.simps)
  from tokens_of_first [OF assms(1)] obtain k y others
    where t: "tokens_of t = (k, y) # others" and k: "k \<noteq> IF"
      and i: "k = IDENTIFIER \<longrightarrow> others = []"
    by blast
  have c: "current_token ?P = Some (k, y)"
    by (simp add: t Parser_simps)
  have nl: "\<not> lookahead ASSIGN ?P" if "k = IDENTIFIER"
    using i that by (simp add: t lookahead_def Parser_simps)
  have x: "expect SEMICOLON (Parser []) = Inl (expected_error SEMICOLON ''EOF'')"
    by (simp add: expect_def Parser_simps)
  show ?thesis
    by (cases "k = IDENTIFIER") (simp_all add: statement.simps [of ?P] c k nl e x)
qed

text \<open>
  C5, as the code has it.  The text that the generator gives for an expression tree is
  not a statement: it has no terminating \<open>;\<close>, and the pipeline refuses it at the end of
  the input.  With the \<open>;\<close> added the text is parsed back to the same tree, and the
  pipeline returns the same text.
\<close>

theorem generated_expression_fixed_point:
  assumes "expression_tree t" and "generate_code t = Inr s"
  shows "compile_code s = Inl (expected_error SEMICOLON ''EOF'')
       \<and> parse (Parser (lex_tokens (s @ '';''))) = Inr (Block [t])
       \<and> compile_code (s @ '';'') = Inr s"
proof -
  have l1: "lex_tokens s = tokens_of t"
    using lex_expression [OF assms, of "[]" None] by (simp add: lex_tokens_def)
  have l2: "lex_tokens (s @ '';'') = tokens_of t @ [(SEMICOLON, '';'')]"
    using lex_expression [OF assms, of "'';''" None]
      lex_punctuation(3) [of "Some (last s)" "[]"]
    by (simp add: lex_tokens_def class_facts del: lex_from.simps(2))
  from tokens_of_first [OF assms(1)] obtain k y others
    where t: "tokens_of t = (k, y) # others"
    by blast
  have c: "current_token (Parser (tokens_of t @ r)) = Some (k, y)" for r
    by (simp add: t Parser_simps)
  have "parse (Parser (tokens_of t)) = Inl (expected_error SEMICOLON ''EOF'')"
    using statement_unterminated [OF assms] c [of "[]"]
    by (simp add: parse_def parse_loop.simps [of "[]" "Parser (tokens_of t)"])
  moreover have "parse (Parser (tokens_of t @ [(SEMICOLON, '';'')])) = Inr (Block [t])"
    using statement_expression [OF assms, of "'';''" "[]"] c [of "[(SEMICOLON, '';'')]"]
    by (simp add: parse_def parse_loop.simps [of "[]" "Parser (tokens_of t @ _)"]
        parse_loop.simps [of "[t]" "Parser []"] Parser_simps)
  ultimately show ?thesis
    using assms(2) by (simp add: compile_code_def l1 l2)
qed

theorem generated_expression_fixed_point_witness:
  "expression_tree (BinOp (BinOp (Number 1) ''+'' (Identifier ''x'')) ''*'' (Number 20))
   \<and> generate_code (BinOp (BinOp (Number 1) ''+'' (Identifier ''x'')) ''*'' (Number 20))
       = Inr ''((1 + x) * 20)''
   \<and> compile_code ''((1 + x) * 20)'' = Inl (expected_error SEMICOLON ''EOF'')
   \<and> compile_code ''((1 + x) * 20);'' = Inr ''((1 + x) * 20)''"
proof -
  have h: "expression_tree (BinOp (BinOp (Number 1) ''+'' (Identifier ''x'')) ''*'' (Number 20))"
    "generate_code (BinOp (BinOp (Number 1) ''+'' (Identifier ''x'')) ''*'' (Number 20))
       = Inr ''((1 + x) * 20)''"
    by code_simp+
  from generated_expression_fixed_point [OF h] show ?thesis using h by simp
qed

text \<open>
  The claim C5 as stated fails on the tree of \<open>1 + 2\<close>: its text \<open>(1 + 2)\<close> is not
  parsed again, so nothing is regenerated.
\<close>

theorem regenerate_fails_without_semicolon:
  "generate_code (BinOp (Number 1) ''+'' (Number 2)) = Inr ''(1 + 2)''
   \<and> compile_code ''(1 + 2)'' = Inl (expected_error SEMICOLON ''EOF'')
   \<and> compile_code ''(1 + 2)'' \<noteq> Inr ''(1 + 2)''"
proof -
  have "generate_code (BinOp (Number 1) ''+'' (Number 2)) = Inr ''(1 + 2)''"
    "compile_code ''(1 + 2)'' = Inl (expected_error SEMICOLON ''EOF'')"
    by code_simp+
  then show ?thesis by simp
qed


section \<open>The parsed tree\<close>

subsection \<open>The texts of the tokens\<close>

text \<open>A text that a pattern matches from its first to its last character.\<close>

fun full_match :: "pattern \<Rightarrow> string \<Rightarrow> bool" where
  "full_match (Keyword w) x = (x = w)"
| "full_match (Literal w) x = (x = w)"
| "full_match Digits x = is_number x"
| "full_match Ident x = is_identifier x"
| "full_match Spaces x = (x \<noteq> [] \<and> list_all is_space x)"

definition token_ok :: "token \<Rightarrow> bool" where
  "token_ok t = list_ex (\<lambda>(name, p). name = fst t \<and> full_match p (snd t)) TOKENS"

lemma takeWhile_take: "take (length (takeWhile P s)) s = takeWhile P s"
  by (induction s) simp_all

lemma match_pattern_full:
  assumes "match_pattern p prev s = Some n"
  shows "full_match p (take n s)"
proof (cases p)
  case (Keyword w)
  with assms show ?thesis by (auto split: if_splits)
next
  case (Literal w)
  with assms show ?thesis by (auto split: if_splits)
next
  case Digits
  with assms have n: "n = length (takeWhile is_digit s)" "0 < n"
    by (auto simp: Let_def split: if_splits)
  then have "take n s = takeWhile is_digit s" by (simp add: takeWhile_take)
  moreover have "list_all is_digit (takeWhile is_digit s)"
    by (simp add: list_all_iff) (meson set_takeWhileD)
  ultimately show ?thesis using n Digits by (auto simp: is_number_def)
next
  case Ident
  with assms obtain c cs where s: "s = c # cs" "is_ident_start c"
    "n = Suc (length (takeWhile is_word cs))"
    by (auto split: list.splits if_splits)
  then have "take n s = c # takeWhile is_word cs" by (simp add: takeWhile_take)
  moreover have "list_all is_word (takeWhile is_word cs)"
    by (simp add: list_all_iff) (meson set_takeWhileD)
  ultimately show ?thesis using s Ident by (simp add: is_identifier_def)
next
  case Spaces
  with assms have n: "n = length (takeWhile is_space s)" "0 < n"
    by (auto simp: Let_def split: if_splits)
  then have "take n s = takeWhile is_space s" by (simp add: takeWhile_take)
  moreover have "list_all is_space (takeWhile is_space s)"
    by (simp add: list_all_iff) (meson set_takeWhileD)
  ultimately show ?thesis using n Spaces by auto
qed

lemma first_match_full:
  assumes "first_match alts prev s = Some (name, n)"
  shows "\<exists>p. (name, p) \<in> set alts \<and> full_match p (take n s)"
  using assms
proof (induction alts)
  case Nil
  then show ?case by simp
next
  case (Cons a alts)
  obtain k p where a: "a = (k, p)" by (cases a)
  show ?case
  proof (cases "match_pattern p prev s")
    case None
    with Cons a show ?thesis by auto
  next
    case (Some m)
    with Cons.prems a have "k = name" "m = n" by simp_all
    with Some match_pattern_full a show ?thesis by auto
  qed
qed

lemma lex_from_tokens_ok: "list_all token_ok (lex_from prev s)"
proof (induction prev s rule: lex_from.induct)
  case (1 prev)
  show ?case by simp
next
  case (2 prev c cs)
  show ?case
  proof (cases "match_here prev (c # cs)")
    case None
    with "2.IH"(1) show ?thesis by simp
  next
    case (Some kn)
    obtain k n where kn: "kn = (k, n)" by (cases kn)
    from Some kn first_match_full [of TOKENS prev "c # cs" k n]
    have "token_ok (k, take n (c # cs))"
      by (auto simp: match_here_def token_ok_def list_ex_iff)
    with "2.IH"(2) [OF Some kn [symmetric] refl] Some kn show ?thesis
      by (simp del: take_Suc_Cons drop_Suc_Cons add: Let_def)
  qed
qed

text \<open>The operators of the data model, and the texts of the operator tokens.\<close>

definition operators :: "string list" where
  "operators = [''+'', ''-'', ''*'', ''/'', ''=='', ''!='', ''<'', ''>'', ''<='', ''>='']"

lemma operator_token_text:
  assumes "token_ok (k, x)" and "k \<in> additive_kinds \<or> k \<in> multiplicative_kinds"
  shows "x \<in> set operators"
  using assms
  by (auto simp: token_ok_def TOKENS_def additive_kinds_def multiplicative_kinds_def operators_def)

subsection \<open>The grammar\<close>

text \<open>
  The grammar of the language as a relation between a run of tokens and the tree it
  stands for.  A \<open>Block\<close> lists its statements in the order of their runs of tokens, and
  an \<open>IfStatement\<close> has an else branch exactly in the rule with an \<open>else\<close> clause.
\<close>

inductive Factor :: "token list \<Rightarrow> node \<Rightarrow> bool"
  and Term :: "token list \<Rightarrow> node \<Rightarrow> bool"
  and Expr :: "token list \<Rightarrow> node \<Rightarrow> bool"
where
  Factor_number: "py_int x = Inr v \<Longrightarrow> Factor [(NUMBER, x)] (Number v)"
| Factor_identifier: "Factor [(IDENTIFIER, x)] (Identifier x)"
| Factor_parentheses: "Expr ts e \<Longrightarrow> Factor ((LPAREN, x) # ts @ [(RPAREN, y)]) e"
| Term_factor: "Factor ts f \<Longrightarrow> Term ts f"
| Term_operator:
    "Term ts l \<Longrightarrow> k \<in> multiplicative_kinds \<Longrightarrow> Factor us r
      \<Longrightarrow> Term (ts @ (k, op) # us) (BinOp l op r)"
| Expr_term: "Term ts t \<Longrightarrow> Expr ts t"
| Expr_operator:
    "Expr ts l \<Longrightarrow> k \<in> additive_kinds \<Longrightarrow> Term us r
      \<Longrightarrow> Expr (ts @ (k, op) # us) (BinOp l op r)"

inductive Statement :: "token list \<Rightarrow> node \<Rightarrow> bool"
  and BlockOrStmt :: "token list \<Rightarrow> node \<Rightarrow> bool"
  and Statements :: "token list \<Rightarrow> node list \<Rightarrow> bool"
where
  Statement_if:
    "Expr cs c \<Longrightarrow> BlockOrStmt ts t
      \<Longrightarrow> Statement ((IF, a) # (LPAREN, b) # cs @ (RPAREN, d) # ts) (IfStatement c t None)"
| Statement_if_else:
    "Expr cs c \<Longrightarrow> BlockOrStmt ts t \<Longrightarrow> BlockOrStmt es e
      \<Longrightarrow> Statement ((IF, a) # (LPAREN, b) # cs @ (RPAREN, d) # ts @ (ELSE, f) # es)
            (IfStatement c t (Some e))"
| Statement_assignment:
    "Expr vs v
      \<Longrightarrow> Statement ((IDENTIFIER, name) # (ASSIGN, a) # vs @ [(SEMICOLON, b)])
            (Assignment (Identifier name) v)"
| Statement_expression: "Expr ts e \<Longrightarrow> Statement (ts @ [(SEMICOLON, b)]) e"
| Block_braces: "Statements ts ss \<Longrightarrow> BlockOrStmt ((LBRACE, a) # ts @ [(RBRACE, b)]) (Block ss)"
| Block_single: "Statement ts s \<Longrightarrow> BlockOrStmt ts s"
| Statements_nil: "Statements [] []"
| Statements_cons: "Statement ts s \<Longrightarrow> Statements us ss \<Longrightarrow> Statements (ts @ us) (s # ss)"

lemma Statements_snoc:
  assumes "Statements ts ss" and "Statement us s"
  shows "Statements (ts @ us) (ss @ [s])"
  using assms(1)
proof (induction rule: Statement_BlockOrStmt_Statements.inducts(3)
    [where ?P1.0 = "\<lambda>_ _. True" and ?P2.0 = "\<lambda>_ _. True"])
  case Statements_nil
  from Statements_cons [OF assms(2) Statement_BlockOrStmt_Statements.Statements_nil]
  show ?case by simp
next
  case (Statements_cons ts s' us' ss)
  from Statement_BlockOrStmt_Statements.Statements_cons [OF Statements_cons(1) Statements_cons(4)]
  show ?case by simp
qed simp_all

subsection \<open>The parser follows the grammar\<close>

lemma expr_sound:
  "factor p = Inr (r, q) \<Longrightarrow> \<exists>ts. remaining p = ts @ remaining q \<and> Factor ts r"
  "term' p = Inr (r, q) \<Longrightarrow> \<exists>ts. remaining p = ts @ remaining q \<and> Term ts r"
  "term_loop res p = Inr (r, q) \<Longrightarrow> Term us res
     \<Longrightarrow> \<exists>ts. remaining p = ts @ remaining q \<and> Term (us @ ts) r"
  "expr p = Inr (r, q) \<Longrightarrow> \<exists>ts. remaining p = ts @ remaining q \<and> Expr ts r"
  "expr_loop res p = Inr (r, q) \<Longrightarrow> Expr us res
     \<Longrightarrow> \<exists>ts. remaining p = ts @ remaining q \<and> Expr (us @ ts) r"
proof (induct p and p and res p and p and res p
    arbitrary: r q and r q and r q us and r q and r q us
    rule: factor_term'_term_loop_expr_expr_loop.induct)
  case (1 p)
  show ?case
  proof (cases "current_token p")
    case None
    with "1.prems" show ?thesis by (simp add: factor.simps [of p])
  next
    case (Some t)
    obtain kind lexeme where t: "t = (kind, lexeme)" by (cases t)
    note rem = remaining_current [OF Some]
    consider "kind = NUMBER" | "kind = IDENTIFIER" | "kind = LPAREN"
      | "kind \<noteq> NUMBER" "kind \<noteq> IDENTIFIER" "kind \<noteq> LPAREN" by blast
    then show ?thesis
    proof cases
      case 1
      with "1.prems" Some t obtain v where "py_int lexeme = Inr v" "r = Number v"
        "q = next_token p"
        by (auto simp: factor.simps [of p] split: sum.splits)
      with rem t 1 Factor_number [of lexeme v] show ?thesis by simp
    next
      case 2
      with "1.prems" Some t have "r = Identifier lexeme" "q = next_token p"
        by (auto simp: factor.simps [of p])
      with rem t 2 Factor_identifier [of lexeme] show ?thesis by simp
    next
      case 3
      with "1.prems" Some t obtain p1 where e: "expr (next_token p) = Inr (r, p1)"
        and x: "expect RPAREN p1 = Inr q"
        by (auto simp: factor.simps [of p] split: sum.splits)
      from 3 have k: "kind \<noteq> NUMBER" "kind \<noteq> IDENTIFIER" "kind = LPAREN" by simp_all
      from "1.hyps" [OF Some t [symmetric] k e] obtain ts
        where ts: "remaining (next_token p) = ts @ remaining p1" "Expr ts r" by blast
      from expect_remaining [OF x] obtain y where
        "remaining p1 = (RPAREN, y) # remaining q" by blast
      with ts rem t 3 have "remaining p = ((LPAREN, lexeme) # ts @ [(RPAREN, y)]) @ remaining q"
        by simp
      with Factor_parentheses [OF ts(2), of lexeme y] show ?thesis by blast
    next
      case 4
      with "1.prems" Some t show ?thesis by (simp add: factor.simps [of p])
    qed
  qed
next
  case (2 p)
  from "2.prems" obtain r1 p1 where f: "factor p = Inr (r1, p1)"
    and l: "term_loop r1 p1 = Inr (r, q)"
    by (auto simp: term'.simps [of p] split: sum.splits)
  from "2.hyps"(1) [OF f] obtain ts where ts: "remaining p = ts @ remaining p1" "Factor ts r1"
    by blast
  from "2.hyps"(2) [OF f refl l Term_factor [OF ts(2)]] obtain us
    where "remaining p1 = us @ remaining q" "Term (ts @ us) r" by blast
  with ts have "remaining p = (ts @ us) @ remaining q \<and> Term (ts @ us) r" by simp
  then show ?case by blast
next
  case (3 res p)
  show ?case
  proof (cases "current_token p")
    case None
    with "3.prems" show ?thesis by (simp add: term_loop.simps [of res p])
  next
    case (Some t)
    obtain kind op where t: "t = (kind, op)" by (cases t)
    show ?thesis
    proof (cases "kind \<in> {MULTIPLY, DIVIDE}")
      case False
      with "3.prems" Some t show ?thesis by (simp add: term_loop.simps [of res p])
    next
      case True
      with "3.prems"(1) Some t obtain r1 p1
        where f: "factor (next_token p) = Inr (r1, p1)"
          and l: "term_loop (BinOp res op r1) p1 = Inr (r, q)"
        by (auto simp: term_loop.simps [of res p] split: sum.splits)
      from "3.hyps"(1) [OF Some t [symmetric] True f] obtain ts
        where ts: "remaining (next_token p) = ts @ remaining p1" "Factor ts r1" by blast
      from True have "kind \<in> multiplicative_kinds" by (simp add: multiplicative_kinds_def)
      from Term_operator [OF "3.prems"(2) this ts(2), of op]
      have "Term (us @ (kind, op) # ts) (BinOp res op r1)" .
      from "3.hyps"(2) [OF Some t [symmetric] True f refl l this] obtain vs
        where "remaining p1 = vs @ remaining q" "Term ((us @ (kind, op) # ts) @ vs) r" by blast
      with ts remaining_current [OF Some] t
      have "remaining p = ((kind, op) # ts @ vs) @ remaining q
          \<and> Term (us @ ((kind, op) # ts @ vs)) r" by simp
      then show ?thesis by blast
    qed
  qed
next
  case (4 p)
  from "4.prems" obtain r1 p1 where f: "term' p = Inr (r1, p1)"
    and l: "expr_loop r1 p1 = Inr (r, q)"
    by (auto simp: expr.simps [of p] split: sum.splits)
  from "4.hyps"(1) [OF f] obtain ts where ts: "remaining p = ts @ remaining p1" "Term ts r1"
    by blast
  from "4.hyps"(2) [OF f refl l Expr_term [OF ts(2)]] obtain us
    where "remaining p1 = us @ remaining q" "Expr (ts @ us) r" by blast
  with ts have "remaining p = (ts @ us) @ remaining q \<and> Expr (ts @ us) r" by simp
  then show ?case by blast
next
  case (5 res p)
  show ?case
  proof (cases "current_token p")
    case None
    with "5.prems" show ?thesis by (simp add: expr_loop.simps [of res p])
  next
    case (Some t)
    obtain kind op where t: "t = (kind, op)" by (cases t)
    show ?thesis
    proof (cases "kind \<in> {PLUS, MINUS, EQ, NEQ, LT, GT, LE, GE}")
      case False
      with "5.prems" Some t show ?thesis by (simp add: expr_loop.simps [of res p])
    next
      case True
      with "5.prems"(1) Some t obtain r1 p1
        where f: "term' (next_token p) = Inr (r1, p1)"
          and l: "expr_loop (BinOp res op r1) p1 = Inr (r, q)"
        by (auto simp: expr_loop.simps [of res p] split: sum.splits)
      from "5.hyps"(1) [OF Some t [symmetric] True f] obtain ts
        where ts: "remaining (next_token p) = ts @ remaining p1" "Term ts r1" by blast
      from True have "kind \<in> additive_kinds" by (simp add: additive_kinds_def)
      from Expr_operator [OF "5.prems"(2) this ts(2), of op]
      have "Expr (us @ (kind, op) # ts) (BinOp res op r1)" .
      from "5.hyps"(2) [OF Some t [symmetric] True f refl l this] obtain vs
        where "remaining p1 = vs @ remaining q" "Expr ((us @ (kind, op) # ts) @ vs) r" by blast
      with ts remaining_current [OF Some] t
      have "remaining p = ((kind, op) # ts @ vs) @ remaining q
          \<and> Expr (us @ ((kind, op) # ts @ vs)) r" by simp
      then show ?thesis by blast
    qed
  qed
qed

lemma assignment_sound:
  assumes "assignment p = Inr (r, q)"
  shows "\<exists>ts. remaining p = ts @ remaining q \<and> Statement ts r"
proof -
  from assms obtain kind name p1 p2 v p3 where c: "current_token p = Some (kind, name)"
    and a: "expect IDENTIFIER p = Inr p1" and b: "expect ASSIGN p1 = Inr p2"
    and e: "expr p2 = Inr (v, p3)" and d: "expect SEMICOLON p3 = Inr q"
    and r: "r = Assignment (Identifier name) v"
    by (auto simp: assignment_def split: option.splits sum.splits)
  from expect_remaining [OF a] remaining_current [OF c]
  have 1: "remaining p = (IDENTIFIER, name) # remaining p1" by auto
  from expect_remaining [OF b] obtain x where 2: "remaining p1 = (ASSIGN, x) # remaining p2"
    by blast
  from expr_sound(4) [OF e] obtain vs where 3: "remaining p2 = vs @ remaining p3" "Expr vs v"
    by blast
  from expect_remaining [OF d] obtain y where 4: "remaining p3 = (SEMICOLON, y) # remaining q"
    by blast
  from 1 2 3 4 have "remaining p
      = ((IDENTIFIER, name) # (ASSIGN, x) # vs @ [(SEMICOLON, y)]) @ remaining q" by simp
  with Statement_assignment [OF 3(2), of name x y] r show ?thesis by blast
qed

lemma statement_sound:
  "statement p = Inr (r, q) \<Longrightarrow> \<exists>ts. remaining p = ts @ remaining q \<and> Statement ts r"
  "if_statement p = Inr (r, q) \<Longrightarrow> \<exists>ts. remaining p = ts @ remaining q \<and> Statement ts r"
  "block_or_statement p = Inr (r, q)
     \<Longrightarrow> \<exists>ts. remaining p = ts @ remaining q \<and> BlockOrStmt ts r"
  "block_loop stmts p = Inr (rs, q) \<Longrightarrow> Statements us stmts
     \<Longrightarrow> \<exists>ts. remaining p = ts @ remaining q \<and> Statements (us @ ts) rs"
proof (induct p and p and p and stmts p arbitrary: r q and r q and r q and rs q us
    rule: statement_if_statement_block_or_statement_block_loop.induct)
  case (1 p)
  from "1.prems" obtain kind lexeme where c: "current_token p = Some (kind, lexeme)"
    by (auto simp: statement.simps [of p] split: option.splits)
  consider "kind = IF" | "kind \<noteq> IF" "kind = IDENTIFIER \<and> lookahead ASSIGN p"
    | "kind \<noteq> IF" "\<not> (kind = IDENTIFIER \<and> lookahead ASSIGN p)" by blast
  then show ?case
  proof cases
    case 1
    with "1.prems" c have "if_statement p = Inr (r, q)"
      by (simp add: statement.simps [of p])
    with "1.hyps" [OF c refl 1] show ?thesis by simp
  next
    case 2
    with "1.prems" c have "assignment p = Inr (r, q)"
      by (simp add: statement.simps [of p])
    then show ?thesis by (rule assignment_sound)
  next
    case 3
    with "1.prems" c obtain p1 where e: "expr p = Inr (r, p1)"
      and x: "expect SEMICOLON p1 = Inr q"
      by (auto simp: statement.simps [of p] split: sum.splits)
    from expr_sound(4) [OF e] obtain ts where ts: "remaining p = ts @ remaining p1" "Expr ts r"
      by blast
    from expect_remaining [OF x] obtain y where "remaining p1 = (SEMICOLON, y) # remaining q"
      by blast
    with ts have "remaining p = (ts @ [(SEMICOLON, y)]) @ remaining q" by simp
    with Statement_expression [OF ts(2), of y] show ?thesis by blast
  qed
next
  case (2 p)
  from "2.prems" obtain p1 p2 c p3 p4 t p5 where
    a: "expect IF p = Inr p1" "expect LPAREN p1 = Inr p2" "expr p2 = Inr (c, p3)"
      "expect RPAREN p3 = Inr p4" and b: "block_or_statement p4 = Inr (t, p5)"
    by (auto simp: if_statement.simps [of p] split: sum.splits)
  from expr_sound(4) [OF a(3)] obtain cs where cs: "remaining p2 = cs @ remaining p3" "Expr cs c"
    by blast
  from expect_remaining [OF a(1)] expect_remaining [OF a(2)] expect_remaining [OF a(4)] cs(1)
  obtain t1 t2 t3 where
    l4: "remaining p = ((IF, t1) # (LPAREN, t2) # cs @ [(RPAREN, t3)]) @ remaining p4"
    by auto
  from "2.hyps"(1) [OF a(1,2,3) refl a(4) b]
  obtain ts where ts: "remaining p4 = ts @ remaining p5" "BlockOrStmt ts t" by blast
  have no_else: ?case if "q = p5" "r = IfStatement c t None"
  proof -
    from l4 ts(1) that have "remaining p
        = ((IF, t1) # (LPAREN, t2) # cs @ (RPAREN, t3) # ts) @ remaining q" by simp
    with Statement_if [OF cs(2) ts(2), of t1 t2 t3] that show ?thesis by blast
  qed
  show ?case
  proof (cases "current_token p5")
    case None
    with "2.prems" a b have "q = p5" "r = IfStatement c t None"
      by (simp_all add: if_statement.simps [of p])
    then show ?thesis by (rule no_else)
  next
    case (Some u)
    obtain kind lexeme where u: "u = (kind, lexeme)" by (cases u)
    show ?thesis
    proof (cases "kind = ELSE")
      case False
      with "2.prems" a b Some u have "q = p5" "r = IfStatement c t None"
        by (simp_all add: if_statement.simps [of p])
      then show ?thesis by (rule no_else)
    next
      case True
      with "2.prems" a b Some u obtain e where
        e: "block_or_statement (next_token p5) = Inr (e, q)"
        and r: "r = IfStatement c t (Some e)"
        by (auto simp: if_statement.simps [of p] split: sum.splits)
      from "2.hyps"(2) [OF a(1,2,3) refl a(4) b refl Some u [symmetric] True e]
      obtain es where es: "remaining (next_token p5) = es @ remaining q" "BlockOrStmt es e"
        by blast
      with l4 ts(1) remaining_current [OF Some] u True
      have "remaining p
          = ((IF, t1) # (LPAREN, t2) # cs @ (RPAREN, t3) # ts @ (ELSE, lexeme) # es) @ remaining q"
        by simp
      with Statement_if_else [OF cs(2) ts(2) es(2), of t1 t2 t3 lexeme] r show ?thesis by blast
    qed
  qed
next
  case (3 p)
  show ?case
  proof (cases "current_token p")
    case None
    with "3.prems" have "statement p = Inr (r, q)"
      by (simp add: block_or_statement.simps [of p])
    with "3.hyps"(1) [OF None] Block_single show ?thesis by blast
  next
    case (Some u)
    obtain kind lexeme where u: "u = (kind, lexeme)" by (cases u)
    show ?thesis
    proof (cases "kind = LBRACE")
      case False
      with "3.prems" Some u have "statement p = Inr (r, q)"
        by (simp add: block_or_statement.simps [of p])
      with "3.hyps"(3) [OF Some u [symmetric] False] Block_single show ?thesis by blast
    next
      case True
      with "3.prems" Some u obtain p1 ss p2 where
        a: "expect LBRACE p = Inr p1" and b: "block_loop [] p1 = Inr (ss, p2)"
        and c: "expect RBRACE p2 = Inr q" and r: "r = Block ss"
        by (auto simp: block_or_statement.simps [of p] split: sum.splits)
      from "3.hyps"(2) [OF Some u [symmetric] True a b Statements_nil]
      obtain ts where ts: "remaining p1 = ts @ remaining p2" "Statements ts ss" by auto
      with expect_remaining [OF a] expect_remaining [OF c] obtain t1 t2 where
        "remaining p = ((LBRACE, t1) # ts @ [(RBRACE, t2)]) @ remaining q" by auto
      with Block_braces [OF ts(2), of t1 t2] r show ?thesis by blast
    qed
  qed
next
  case (4 statements p)
  show ?case
  proof (cases "current_token p")
    case None
    with "4.prems" show ?thesis by (simp add: block_loop.simps [of statements p])
  next
    case (Some u)
    obtain kind lexeme where u: "u = (kind, lexeme)" by (cases u)
    show ?thesis
    proof (cases "kind \<noteq> RBRACE")
      case False
      with "4.prems" Some u show ?thesis by (simp add: block_loop.simps [of statements p])
    next
      case True
      with "4.prems"(1) Some u obtain s p1 where
        a: "statement p = Inr (s, p1)" and b: "block_loop (statements @ [s]) p1 = Inr (rs, q)"
        by (auto simp: block_loop.simps [of statements p] split: sum.splits)
      from "4.hyps"(1) [OF Some u [symmetric] True a]
      obtain ts where ts: "remaining p = ts @ remaining p1" "Statement ts s" by blast
      from "4.hyps"(2) [OF Some u [symmetric] True a refl b Statements_snoc [OF "4.prems"(2) ts(2)]]
      obtain vs where "remaining p1 = vs @ remaining q" "Statements ((us @ ts) @ vs) rs" by blast
      with ts have "remaining p = (ts @ vs) @ remaining q \<and> Statements (us @ (ts @ vs)) rs"
        by simp
      then show ?thesis by blast
    qed
  qed
qed

lemma parse_loop_sound:
  "parse_loop stmts p = Inr (rs, q) \<Longrightarrow> Statements us stmts
     \<Longrightarrow> remaining q = [] \<and> Statements (us @ remaining p) rs"
proof (induction stmts p arbitrary: us rule: parse_loop.induct)
  case (1 statements p)
  show ?case
  proof (cases "current_token p")
    case None
    with "1.prems" show ?thesis
      by (simp add: parse_loop.simps [of statements p] remaining_none)
  next
    case (Some t)
    with "1.prems"(1) obtain s p1 where a: "statement p = Inr (s, p1)"
      and b: "parse_loop (statements @ [s]) p1 = Inr (rs, q)"
      by (auto simp: parse_loop.simps [of statements p] split: sum.splits)
    from statement_sound(1) [OF a] obtain ts
      where ts: "remaining p = ts @ remaining p1" "Statement ts s" by blast
    from "1.IH" [OF Some a refl b Statements_snoc [OF "1.prems"(2) ts(2)]] ts(1)
    show ?thesis by simp
  qed
qed

lemma remaining_Parser: "remaining (Parser ts) = ts"
  by (cases ts) (simp_all add: remaining_def Parser_simps)

lemma parse_sound:
  assumes "parse (Parser toks) = Inr ast"
  shows "\<exists>ss. ast = Block ss \<and> Statements toks ss"
proof -
  from assms obtain ss q where l: "parse_loop [] (Parser toks) = Inr (ss, q)"
    and a: "ast = Block ss"
    by (auto simp: parse_def split: sum.splits)
  from parse_loop_sound [OF l Statements_nil] have "Statements toks ss"
    by (simp add: remaining_Parser)
  with a show ?thesis by simp
qed

lemma Statements_segments:
  assumes "Statements ts ss"
  shows "\<exists>segments. ts = concat segments \<and> list_all2 Statement segments ss"
  using assms
proof (induction rule: Statement_BlockOrStmt_Statements.inducts(3)
    [where ?P1.0 = "\<lambda>_ _. True" and ?P2.0 = "\<lambda>_ _. True"])
  case Statements_nil
  have "[] = concat [] \<and> list_all2 Statement [] []" by simp
  then show ?case by blast
next
  case (Statements_cons ts s us ss)
  then obtain segments where "us = concat segments" "list_all2 Statement segments ss" by blast
  with Statements_cons(1) have "ts @ us = concat (ts # segments)
      \<and> list_all2 Statement (ts # segments) (s # ss)" by simp
  then show ?case by blast
qed simp_all

subsection \<open>Invariants of the parsed tree\<close>

text \<open>
  Every \<open>Assignment\<close> in the tree has an \<open>Identifier\<close> as its target, and every
  \<open>BinOp\<close> has one of the ten operators.
\<close>

fun tree_invariant :: "node \<Rightarrow> bool" where
  "tree_invariant (Number v) = True"
| "tree_invariant (Identifier name) = True"
| "tree_invariant (BinOp l op r) = (op \<in> set operators \<and> tree_invariant l \<and> tree_invariant r)"
| "tree_invariant (Assignment i v) =
     ((case i of Identifier name \<Rightarrow> True | _ \<Rightarrow> False) \<and> tree_invariant v)"
| "tree_invariant (IfStatement c t e) =
     (tree_invariant c \<and> tree_invariant t
      \<and> (case e of None \<Rightarrow> True | Some n \<Rightarrow> tree_invariant n))"
| "tree_invariant (Block statements) = list_all tree_invariant statements"

text \<open>No \<open>IfStatement\<close> in the tree has an else branch.\<close>

fun else_free :: "node \<Rightarrow> bool" where
  "else_free (Number v) = True"
| "else_free (Identifier name) = True"
| "else_free (BinOp l op r) = (else_free l \<and> else_free r)"
| "else_free (Assignment i v) = (else_free i \<and> else_free v)"
| "else_free (IfStatement c t e) = (else_free c \<and> else_free t \<and> e = None)"
| "else_free (Block statements) = list_all else_free statements"

lemma expr_invariant:
  "Factor ts r \<Longrightarrow> list_all token_ok ts \<longrightarrow> tree_invariant r \<and> else_free r"
  "Term ts r \<Longrightarrow> list_all token_ok ts \<longrightarrow> tree_invariant r \<and> else_free r"
  "Expr ts r \<Longrightarrow> list_all token_ok ts \<longrightarrow> tree_invariant r \<and> else_free r"
  by (induction rule: Factor_Term_Expr.inducts) (auto simp: operator_token_text)

lemma statement_invariant:
  "Statement ts r \<Longrightarrow> list_all token_ok ts \<longrightarrow> tree_invariant r"
  "BlockOrStmt ts r \<Longrightarrow> list_all token_ok ts \<longrightarrow> tree_invariant r"
  "Statements ts rs \<Longrightarrow> list_all token_ok ts \<longrightarrow> list_all tree_invariant rs"
  by (induction rule: Statement_BlockOrStmt_Statements.inducts)
    (auto simp: expr_invariant)

lemma statement_else_free:
  "Statement ts r \<Longrightarrow> list_all token_ok ts \<and> ELSE \<notin> fst ` set ts \<longrightarrow> else_free r"
  "BlockOrStmt ts r \<Longrightarrow> list_all token_ok ts \<and> ELSE \<notin> fst ` set ts \<longrightarrow> else_free r"
  "Statements ts rs \<Longrightarrow> list_all token_ok ts \<and> ELSE \<notin> fst ` set ts \<longrightarrow> list_all else_free rs"
  by (induction rule: Statement_BlockOrStmt_Statements.inducts)
    (auto simp: expr_invariant)

text \<open>
  C6.  The tree of a successful parse of lexed text is a \<open>Block\<close>.  Throughout the tree
  the target of an \<open>Assignment\<close> is an \<open>Identifier\<close> and the operator of a \<open>BinOp\<close> is
  one of the ten operators.  The tokens of the text split into consecutive runs, one for
  each statement of the \<open>Block\<close> in its order, from which the grammar derives that
  statement; the grammar treats the statements of an inner \<open>Block\<close> in the same way, and
  gives an \<open>IfStatement\<close> an else branch only in the rule that has an \<open>else\<close> clause, so a
  text without the token \<open>else\<close> has no else branch anywhere in its tree.
\<close>

theorem parsed_tree_invariants:
  assumes "list_all token_ok toks" and "parse (Parser toks) = Inr ast"
  shows "list_all token_ok (lex_tokens code)
       \<and> tree_invariant ast
       \<and> (\<exists>ss segments. ast = Block ss \<and> toks = concat segments
            \<and> list_all2 Statement segments ss)
       \<and> (ELSE \<notin> fst ` set toks \<longrightarrow> else_free ast)"
proof -
  have "list_all token_ok (lex_tokens code)"
    by (simp add: lex_tokens_def lex_from_tokens_ok)
  moreover from parse_sound [OF assms(2)] obtain ss where a: "ast = Block ss"
    and s: "Statements toks ss" by blast
  from statement_invariant(3) [OF s] assms(1) a have "tree_invariant ast" by simp
  moreover from Statements_segments [OF s] a
  have "\<exists>ss segments. ast = Block ss \<and> toks = concat segments
      \<and> list_all2 Statement segments ss" by blast
  moreover from statement_else_free(3) [OF s] assms(1) a
  have "ELSE \<notin> fst ` set toks \<longrightarrow> else_free ast" by simp
  ultimately show ?thesis by blast
qed

theorem parsed_tree_invariants_witness:
  "list_all token_ok (lex_tokens ''if (a < 1) { b = 2; c; } d = b * 3;'')
   \<and> parse (Parser (lex_tokens ''if (a < 1) { b = 2; c; } d = b * 3;''))
       = Inr (Block
           [IfStatement (BinOp (Identifier ''a'') ''<'' (Number 1))
              (Block [Assignment (Identifier ''b'') (Number 2), Identifier ''c'']) None,
            Assignment (Identifier ''d'') (BinOp (Identifier ''b'') ''*'' (Number 3))])
   \<and> tree_invariant (Block
           [IfStatement (BinOp (Identifier ''a'') ''<'' (Number 1))
              (Block [Assignment (Identifier ''b'') (Number 2), Identifier ''c'']) None,
            Assignment (Identifier ''d'') (BinOp (Identifier ''b'') ''*'' (Number 3))])
   \<and> (\<exists>segments. lex_tokens ''if (a < 1) { b = 2; c; } d = b * 3;'' = concat segments
        \<and> list_all2 Statement segments
           [IfStatement (BinOp (Identifier ''a'') ''<'' (Number 1))
              (Block [Assignment (Identifier ''b'') (Number 2), Identifier ''c'']) None,
            Assignment (Identifier ''d'') (BinOp (Identifier ''b'') ''*'' (Number 3))])"
proof -
  have h: "list_all token_ok (lex_tokens ''if (a < 1) { b = 2; c; } d = b * 3;'')"
    "parse (Parser (lex_tokens ''if (a < 1) { b = 2; c; } d = b * 3;''))
       = Inr (Block
           [IfStatement (BinOp (Identifier ''a'') ''<'' (Number 1))
              (Block [Assignment (Identifier ''b'') (Number 2), Identifier ''c'']) None,
            Assignment (Identifier ''d'') (BinOp (Identifier ''b'') ''*'' (Number 3))])"
    by code_simp+
  from parsed_tree_invariants [OF h] h show ?thesis by auto
qed


end
